theory Spec2Isabelle
  imports Complex_Main
begin


section \<open>Client: retry wrapper and polling engine (src/app/page.tsx)\<close>

text \<open>
  Identifiers of stored documents (MongoDB ObjectIds, sent as strings) are natural numbers.
\<close>

type_synonym oid = nat

text \<open>
  A JavaScript string is the list of its UTF-16 code units, numbers below 65536. A string
  of ASCII characters is written as \<open>ascii\<close> of an Isabelle string.
\<close>

type_synonym jsString = "nat list"

definition ascii :: "string \<Rightarrow> jsString" where
  "ascii s = map (of_char :: char \<Rightarrow> nat) s"

subsection \<open>fetchWithRetry\<close>

text \<open>
  What the network does to one \<open>fetch\<close>: it resolves with a response after some
  milliseconds, rejects after some milliseconds, or never settles.
\<close>

datatype 'r settle = Resolves nat 'r | Rejects nat | Never

text \<open>
  One pass through the \<open>try\<close> block: the abort timer of 8000 ms rejects a fetch that has
  not settled by then. The result is the response, if any, and the time the attempt took.
\<close>

definition attempt_timeout :: nat where
  "attempt_timeout = 8000"

fun attempt_fetch :: "'r settle \<Rightarrow> 'r option \<times> nat" where
  "attempt_fetch (Resolves t r) =
     (if t < attempt_timeout then (Some r, t) else (None, attempt_timeout))"
| "attempt_fetch (Rejects t) =
     (if t < attempt_timeout then (None, t) else (None, attempt_timeout))"
| "attempt_fetch Never = (None, attempt_timeout)"

text \<open>What the wrapper did, in order: attempts (with their duration) and backoff waits.\<close>

datatype action = Attempt nat | Backoff nat

fun isAttempt :: "action \<Rightarrow> bool" where
  "isAttempt (Attempt d) = True"
| "isAttempt (Backoff d) = False"

fun isBackoff :: "action \<Rightarrow> bool" where
  "isBackoff (Attempt d) = False"
| "isBackoff (Backoff d) = True"

fun duration :: "action \<Rightarrow> nat" where
  "duration (Attempt d) = d"
| "duration (Backoff d) = d"

definition attemptsOf :: "action list \<Rightarrow> nat list" where
  "attemptsOf tr = map duration (filter isAttempt tr)"

definition backoffsOf :: "action list \<Rightarrow> nat list" where
  "backoffsOf tr = map duration (filter isBackoff tr)"

text \<open>
  The \<open>for (let attempt = 0; attempt <= maxRetries; attempt++)\<close> loop. The network is
  a function from the attempt number to what happens to that attempt's fetch. The result
  \<open>None\<close> is \<open>throw lastError\<close>.
\<close>

function fetchWithRetry_loop ::
  "nat \<Rightarrow> nat \<Rightarrow> (nat \<Rightarrow> 'r settle) \<Rightarrow> nat \<Rightarrow> action list \<Rightarrow> 'r option \<times> action list" where
  "fetchWithRetry_loop maxRetries baseDelay net attempt done =
     (if attempt \<le> maxRetries then
        (case attempt_fetch (net attempt) of
           (Some res, d) \<Rightarrow> (Some res, done @ [Attempt d])
         | (None, d) \<Rightarrow>
             (if attempt < maxRetries
              then fetchWithRetry_loop maxRetries baseDelay net (attempt + 1)
                     (done @ [Attempt d, Backoff (baseDelay * 2 ^ attempt)])
              else fetchWithRetry_loop maxRetries baseDelay net (attempt + 1)
                     (done @ [Attempt d])))
      else (None, done))"
  by pat_completeness auto
termination
  by (relation "measure (\<lambda>(m, b, net, a, done). Suc m - a)") auto

declare fetchWithRetry_loop.simps [simp del]

definition fetchWithRetry :: "nat \<Rightarrow> nat \<Rightarrow> (nat \<Rightarrow> 'r settle) \<Rightarrow> 'r option \<times> action list" where
  "fetchWithRetry maxRetries baseDelay net = fetchWithRetry_loop maxRetries baseDelay net 0 []"

text \<open>The default parameters \<open>maxRetries = 3, baseDelay = 500\<close> (used by the join call).\<close>

definition fetchWithRetry_default :: "(nat \<Rightarrow> 'r settle) \<Rightarrow> 'r option \<times> action list" where
  "fetchWithRetry_default net = fetchWithRetry 3 500 net"

subsection \<open>Polling engine state\<close>

datatype connection = Connected | Reconnecting | Offline

datatype feedbackType = Success | Error | Info

text \<open>The JSON snapshot returned by \<open>GET /api/question\<close> (interface \<open>QuestionData\<close>).\<close>

record questionData =
  questionId :: oid
  dataText :: jsString
  dataWinnerId :: "oid option"
  dataWinnerName :: "jsString option"
  remainingMs :: int
  leaderboard :: "(oid \<times> jsString \<times> int) list"

text \<open>
  An HTTP response as the client reads it: \<open>res.ok\<close> and the parsed body
  (\<open>None\<close> when \<open>res.json()\<close> throws).
\<close>

record 'b response =
  ok :: bool
  json :: "'b option"

text \<open>The React state and refs that \<open>fetchQuestion\<close> and the browser events touch.\<close>

record client =
  question :: "questionData option"
  answerInput :: jsString
  feedback :: "(jsString \<times> feedbackType) option"
  timeLeft :: int
  connectionStatus :: connection
  consecutiveFailures :: nat
  pollIntervalRef :: nat
  lastQuestionId :: "oid option"

definition initialClient :: client where
  "initialClient =
     \<lparr>question = None, answerInput = [], feedback = None, timeLeft = 60,
      connectionStatus = Connected, consecutiveFailures = 0, pollIntervalRef = 1500,
      lastQuestionId = None\<rparr>"

definition goOffline :: "client \<Rightarrow> client" where
  "goOffline c = c\<lparr>connectionStatus := Offline\<rparr>"

definition goOnline :: "client \<Rightarrow> client" where
  "goOnline c = c\<lparr>connectionStatus := Connected, consecutiveFailures := 0, pollIntervalRef := 1500\<rparr>"

text \<open>\<open>Math.ceil(ms / 1000)\<close> on an integer number of milliseconds.\<close>

definition ceilSeconds :: "int \<Rightarrow> int" where
  "ceilSeconds ms = - ((- ms) div 1000)"

text \<open>The \<open>catch\<close> block of \<open>fetchQuestion\<close>.\<close>

definition pollFailed :: "client \<Rightarrow> client" where
  "pollFailed c =
     (let c1 = c\<lparr>consecutiveFailures := consecutiveFailures c + 1\<rparr> in
      if consecutiveFailures c1 \<ge> 5
      then c1\<lparr>connectionStatus := Offline, pollIntervalRef := 10000\<rparr>
      else if consecutiveFailures c1 \<ge> 2
      then c1\<lparr>connectionStatus := Reconnecting, pollIntervalRef := 4000\<rparr>
      else c1)"

text \<open>The \<open>try\<close> block of \<open>fetchQuestion\<close> after a response with a parsed body arrived.\<close>

definition pollSucceeded :: "questionData \<Rightarrow> client \<Rightarrow> client" where
  "pollSucceeded dat c =
     (let c1 = c\<lparr>question := Some dat, timeLeft := ceilSeconds (remainingMs dat)\<rparr>;
          c2 = (if consecutiveFailures c1 > 0
                then c1\<lparr>consecutiveFailures := 0, pollIntervalRef := 1500,
                        connectionStatus := Connected\<rparr>
                else c1)
      in if Some (questionId dat) \<noteq> lastQuestionId c2
         then (let c3 = c2\<lparr>lastQuestionId := Some (questionId dat), answerInput := []\<rparr>
               in if dataWinnerId dat = None then c3\<lparr>feedback := None\<rparr> else c3)
         else c2)"

text \<open>
  \<open>fetchQuestion\<close>: the poll goes through the retry wrapper with \<open>maxRetries = 1\<close> and
  \<open>baseDelay = 300\<close>; a response that is not \<open>ok\<close> returns at once and changes nothing.
\<close>

definition fetchQuestion :: "(nat \<Rightarrow> questionData response settle) \<Rightarrow> client \<Rightarrow> client" where
  "fetchQuestion net c =
     (case fst (fetchWithRetry 1 300 net) of
        None \<Rightarrow> pollFailed c
      | Some res \<Rightarrow>
          (if \<not> ok res then c
           else (case json res of
                   None \<Rightarrow> pollFailed c
                 | Some dat \<Rightarrow> pollSucceeded dat c)))"

text \<open>The request of \<open>handleSubmit\<close>: \<open>maxRetries = 2\<close>, \<open>baseDelay = 300\<close>.\<close>

definition submitRequest :: "(nat \<Rightarrow> 'r settle) \<Rightarrow> 'r option \<times> action list" where
  "submitRequest net = fetchWithRetry 2 300 net"

definition pollRequest :: "(nat \<Rightarrow> 'r settle) \<Rightarrow> 'r option \<times> action list" where
  "pollRequest net = fetchWithRetry 1 300 net"

text \<open>
  What can happen to a client between two reschedules of the poll loop: a poll, or one of
  the two browser events.
\<close>

datatype clientEvent =
  Poll "nat \<Rightarrow> questionData response settle"
| BrowserOffline
| BrowserOnline

fun clientStep :: "clientEvent \<Rightarrow> client \<Rightarrow> client" where
  "clientStep (Poll net) c = fetchQuestion net c"
| "clientStep BrowserOffline c = goOffline c"
| "clientStep BrowserOnline c = goOnline c"

definition clientRun :: "clientEvent list \<Rightarrow> client \<Rightarrow> client" where
  "clientRun evs c = fold clientStep evs c"

text \<open>A poll succeeds when a response arrives in time, is \<open>ok\<close> and parses.\<close>

definition pollOk :: "(nat \<Rightarrow> questionData response settle) \<Rightarrow> bool" where
  "pollOk net =
     (case fst (fetchWithRetry 1 300 net) of
        None \<Rightarrow> False
      | Some res \<Rightarrow> ok res \<and> json res \<noteq> None)"

text \<open>The linkage between failure counter, status and interval, as the specification states it.\<close>

definition linked :: "client \<Rightarrow> bool" where
  "linked c =
     ((consecutiveFailures c = 0 \<longrightarrow> connectionStatus c = Connected \<and> pollIntervalRef c = 1500) \<and>
      (1 \<le> consecutiveFailures c \<and> consecutiveFailures c < 2 \<longrightarrow>
         connectionStatus c = Connected \<and> pollIntervalRef c = 1500) \<and>
      (2 \<le> consecutiveFailures c \<and> consecutiveFailures c < 5 \<longrightarrow>
         connectionStatus c = Reconnecting \<and> pollIntervalRef c = 4000) \<and>
      (5 \<le> consecutiveFailures c \<longrightarrow> connectionStatus c = Offline \<and> pollIntervalRef c = 10000))"

text \<open>
  The weaker linkage that survives the browser's offline event: the interval follows the
  counter, and the status is the one of the counter or \<open>Offline\<close>.
\<close>

definition intervalFor :: "nat \<Rightarrow> nat" where
  "intervalFor f = (if 5 \<le> f then 10000 else if 2 \<le> f then 4000 else 1500)"

definition statusFor :: "nat \<Rightarrow> connection" where
  "statusFor f = (if 5 \<le> f then Offline else if 2 \<le> f then Reconnecting else Connected)"

definition loosely_linked :: "client \<Rightarrow> bool" where
  "loosely_linked c =
     (pollIntervalRef c = intervalFor (consecutiveFailures c) \<and>
      (connectionStatus c = statusFor (consecutiveFailures c) \<or> connectionStatus c = Offline))"

fun isOfflineEvent :: "clientEvent \<Rightarrow> bool" where
  "isOfflineEvent BrowserOffline = True"
| "isOfflineEvent _ = False"

subsection \<open>Properties of the retry wrapper and sample networks\<close>

text \<open>
  The budget of one logical call: between one and \<open>maxRetries + 1\<close> attempts, none
  longer than 8000 ms, the \<open>i\<close>-th backoff of \<open>baseDelay * 2 ^ i\<close> ms between consecutive
  attempts, and failure exactly when every one of the \<open>maxRetries + 1\<close> attempts fails.
\<close>

definition retryBudget :: "nat \<Rightarrow> nat \<Rightarrow> (nat \<Rightarrow> 'r settle) \<Rightarrow> bool" where
  "retryBudget maxRetries baseDelay net =
     (let r = fst (fetchWithRetry maxRetries baseDelay net);
          tr = snd (fetchWithRetry maxRetries baseDelay net);
          n = length (attemptsOf tr)
      in 1 \<le> n \<and> n \<le> maxRetries + 1 \<and>
         list_all (\<lambda>d. d \<le> 8000) (attemptsOf tr) \<and>
         backoffsOf tr = map (\<lambda>i. baseDelay * 2 ^ i) [0 ..< n - 1] \<and>
         (r = None \<longleftrightarrow> list_all (\<lambda>i. fst (attempt_fetch (net i)) = None) [0 ..< maxRetries + 1]) \<and>
         (r = None \<longrightarrow> n = maxRetries + 1))"

text \<open>A network on which no fetch ever settles, and one that answers every poll.\<close>

definition deadNetwork :: "nat \<Rightarrow> questionData response settle" where
  "deadNetwork k = Never"

definition sampleData :: questionData where
  "sampleData =
     \<lparr>questionId = 1, dataText = ascii ''7 + 8'', dataWinnerId = None, dataWinnerName = None,
      remainingMs = 59000, leaderboard = []\<rparr>"

definition goodNetwork :: "nat \<Rightarrow> questionData response settle" where
  "goodNetwork k = Resolves 20 \<lparr>ok = True, json = Some sampleData\<rparr>"

section \<open>Question generator (src/lib/questions.ts)\<close>

datatype operator = Plus | Minus | Times | Divide

record generatedQuestion =
  genText :: jsString
  genAnswer :: int

subsection \<open>Double arithmetic of the generator\<close>

text \<open>
  A double in \<open>[0, 1)\<close>, the kind of value \<open>Math.random()\<close> returns, is
  \<open>mantissa / 2 ^ scale\<close> with a mantissa below \<open>2 ^ 53\<close> and a scale of at most 1074
  (normal and subnormal doubles, and zero).
\<close>

record unitDouble =
  mantissa :: nat
  scale :: nat

definition unitDraw :: "unitDouble \<Rightarrow> bool" where
  "unitDraw r = (mantissa r < 2 ^ 53 \<and> mantissa r < 2 ^ scale r \<and> scale r \<le> 1074)"

fun bitLength :: "nat \<Rightarrow> nat" where
  "bitLength n = (if n = 0 then 0 else Suc (bitLength (n div 2)))"

declare bitLength.simps [simp del]

text \<open>\<open>m / 2 ^ s\<close> rounded to the nearest integer, a tie to the even one.\<close>

definition roundHalfEven :: "nat \<Rightarrow> nat \<Rightarrow> nat" where
  "roundHalfEven m s =
     (let q = m div 2 ^ s; r = m mod 2 ^ s
      in if 2 ^ s < 2 * r \<or> (2 * r = 2 ^ s \<and> odd q) then q + 1 else q)"

text \<open>
  Rounding to a double, on numerators: a numerator of more than 53 bits keeps its 53
  leading bits, rounded to nearest, ties to even; a shorter one is exact.
\<close>

definition roundTo53 :: "nat \<Rightarrow> nat" where
  "roundTo53 m = (let s = bitLength m - 53 in roundHalfEven m s * 2 ^ s)"

text \<open>
  The double product \<open>r * n\<close> of a double \<open>r\<close> in \<open>[0, 1)\<close> and an integer \<open>n\<close> (below
  \<open>2 ^ 53\<close> in absolute value, so exactly a double): the numerator of the result over
  \<open>2 ^ scale r\<close>. The exact product has the numerator \<open>mantissa r * n\<close>; IEEE 754
  multiplication returns the double nearest to it.
\<close>

definition timesInt :: "unitDouble \<Rightarrow> int \<Rightarrow> int" where
  "timesInt r n = sgn n * int (roundTo53 (mantissa r * nat \<bar>n\<bar>))"

text \<open>\<open>Math.floor(r * n)\<close>.\<close>

definition floorTimes :: "unitDouble \<Rightarrow> int \<Rightarrow> int" where
  "floorTimes r n = timesInt r n div 2 ^ scale r"

text \<open>
  \<open>randInt(min, max)\<close>, with the value of \<open>Math.random()\<close> as an argument. The sums
  \<open>max - min + 1\<close> and \<open>\<dots> + min\<close> are sums of small integers, which doubles hold exactly.
\<close>

definition randInt :: "int \<Rightarrow> int \<Rightarrow> unitDouble \<Rightarrow> int" where
  "randInt lo hi r = floorTimes r (hi - lo + 1) + lo"

definition operators :: "operator list" where
  "operators = [Plus, Minus, Times, Divide]"

text \<open>\<open>operators[Math.floor(Math.random() * operators.length)]\<close>; \<open>None\<close> is \<open>undefined\<close>.\<close>

definition pickOperator :: "unitDouble \<Rightarrow> operator option" where
  "pickOperator r =
     (let i = floorTimes r (int (length operators))
      in if 0 \<le> i \<and> i < int (length operators) then Some (operators ! nat i) else None)"

text \<open>
  The operator signs are single code units: the plus sign, the minus sign U+2212, the
  multiplication sign U+00D7 and the division sign U+00F7.
\<close>

fun opSymbol :: "operator \<Rightarrow> jsString" where
  "opSymbol Plus = [0x2B]"
| "opSymbol Minus = [0x2212]"
| "opSymbol Times = [0xD7]"
| "opSymbol Divide = [0xF7]"

text \<open>The code unit of a decimal digit.\<close>

definition digitChar :: "nat \<Rightarrow> nat" where
  "digitChar d = 48 + d"

fun showNat :: "nat \<Rightarrow> jsString" where
  "showNat n = (if n < 10 then [digitChar n] else showNat (n div 10) @ [digitChar (n mod 10)])"

declare showNat.simps [simp del]

text \<open>The decimal string of an integer-valued number, as a template literal prints it.\<close>

definition showInt :: "int \<Rightarrow> jsString" where
  "showInt i = (if i < 0 then [0x2D] @ showNat (nat (- i)) else showNat (nat i))"

definition formatText :: "int \<Rightarrow> operator \<Rightarrow> int \<Rightarrow> jsString" where
  "formatText a op b = showInt a @ [0x20] @ opSymbol op @ [0x20] @ showInt b"

text \<open>
  \<open>generateQuestion\<close>; \<open>r0\<close> is the draw that picks the operator, \<open>r1\<close> and \<open>r2\<close> are the
  draws of the two \<open>randInt\<close> calls in the order of the source. \<open>None\<close> is the
  \<open>throw new Error("Unknown operator")\<close> of the default branch.
\<close>

definition generateQuestion ::
  "unitDouble \<Rightarrow> unitDouble \<Rightarrow> unitDouble \<Rightarrow> generatedQuestion option" where
  "generateQuestion r0 r1 r2 =
     (case pickOperator r0 of
        Some Plus \<Rightarrow>
          (let a = randInt 10 99 r1; b = randInt 10 99 r2; answer = a + b
           in Some \<lparr>genText = formatText a Plus b, genAnswer = answer\<rparr>)
      | Some Minus \<Rightarrow>
          (let a = randInt 20 99 r1; b = randInt 1 a r2; answer = a - b
           in Some \<lparr>genText = formatText a Minus b, genAnswer = answer\<rparr>)
      | Some Times \<Rightarrow>
          (let a = randInt 2 12 r1; b = randInt 2 12 r2; answer = a * b
           in Some \<lparr>genText = formatText a Times b, genAnswer = answer\<rparr>)
      | Some Divide \<Rightarrow>
          (let b = randInt 2 12 r1; answer = randInt 2 12 r2; a = b * answer
           in Some \<lparr>genText = formatText a Divide b, genAnswer = answer\<rparr>)
      | None \<Rightarrow> None)"

subsection \<open>Reading a question text back\<close>

text \<open>
  The arithmetic value of a text of the form \<open>digits, space, operator, space, digits\<close>,
  as an exact rational; no value when the text has another form or divides by zero.
\<close>

definition digitValue :: "nat \<Rightarrow> nat option" where
  "digitValue c = (if 48 \<le> c \<and> c \<le> 57 then Some (c - 48) else None)"

fun parseDigits :: "nat \<Rightarrow> jsString \<Rightarrow> nat option" where
  "parseDigits acc [] = Some acc"
| "parseDigits acc (c # cs) =
     (case digitValue c of None \<Rightarrow> None | Some d \<Rightarrow> parseDigits (10 * acc + d) cs)"

definition parseNat :: "jsString \<Rightarrow> nat option" where
  "parseNat s = (if s = [] then None else parseDigits 0 s)"

definition parseOperator :: "jsString \<Rightarrow> operator option" where
  "parseOperator s =
     (if s = opSymbol Plus then Some Plus
      else if s = opSymbol Minus then Some Minus
      else if s = opSymbol Times then Some Times
      else if s = opSymbol Divide then Some Divide
      else None)"

fun splitSpaces :: "jsString \<Rightarrow> jsString list" where
  "splitSpaces [] = [[]]"
| "splitSpaces (c # cs) =
     (if c = 0x20 then [] # splitSpaces cs
      else (case splitSpaces cs of w # ws \<Rightarrow> (c # w) # ws | [] \<Rightarrow> [[c]]))"

definition parseText :: "jsString \<Rightarrow> (nat \<times> operator \<times> nat) option" where
  "parseText s =
     (case splitSpaces s of
        [x, y, z] \<Rightarrow>
          (case (parseNat x, parseOperator y, parseNat z) of
             (Some a, Some op, Some b) \<Rightarrow> Some (a, op, b)
           | _ \<Rightarrow> None)
      | _ \<Rightarrow> None)"

fun applyOperator :: "operator \<Rightarrow> rat \<Rightarrow> rat \<Rightarrow> rat option" where
  "applyOperator Plus a b = Some (a + b)"
| "applyOperator Minus a b = Some (a - b)"
| "applyOperator Times a b = Some (a * b)"
| "applyOperator Divide a b = (if b = 0 then None else Some (a / b))"

definition evalText :: "jsString \<Rightarrow> rat option" where
  "evalText s =
     (case parseText s of
        None \<Rightarrow> None
      | Some (a, op, b) \<Rightarrow> applyOperator op (of_nat a) (of_nat b))"

text \<open>The ranges of the operands, per operator, as the generator draws them.\<close>

fun operandsInRange :: "operator \<Rightarrow> nat \<Rightarrow> nat \<Rightarrow> bool" where
  "operandsInRange Plus a b = (10 \<le> a \<and> a \<le> 99 \<and> 10 \<le> b \<and> b \<le> 99)"
| "operandsInRange Minus a b = (20 \<le> a \<and> a \<le> 99 \<and> 1 \<le> b \<and> b \<le> a)"
| "operandsInRange Times a b = (2 \<le> a \<and> a \<le> 12 \<and> 2 \<le> b \<and> b \<le> 12)"
| "operandsInRange Divide a b = (2 \<le> b \<and> b \<le> 12 \<and> b dvd a \<and> 2 \<le> a div b \<and> a div b \<le> 12)"

definition wellFormedQuestion :: "generatedQuestion \<Rightarrow> bool" where
  "wellFormedQuestion q =
     (case parseText (genText q) of
        None \<Rightarrow> False
      | Some (a, op, b) \<Rightarrow>
          operandsInRange op a b \<and>
          evalText (genText q) = Some (of_int (genAnswer q)) \<and>
          0 \<le> genAnswer q)"

section \<open>Stored documents and storage operations (models, Mongoose calls)\<close>

text \<open>
  The two Mongoose schemas. The \<open>text\<close> field of a question is \<open>qtext\<close> here; all
  numbers that the server stores are integers; \<open>createdAt\<close> is in milliseconds. The
  \<open>createdAt\<close> of players and the \<open>updatedAt\<close> fields, which no handler reads, are left
  out.
\<close>

record IPlayer =
  username :: jsString
  score :: int
  highScore :: int

record IQuestion =
  qtext :: jsString
  answer :: int
  isActive :: bool
  winnerId :: "oid option"
  winnerName :: "jsString option"
  createdAt :: int

text \<open>A collection is the list of its documents with their ids, in insertion order.\<close>

type_synonym 'a collection = "(oid \<times> 'a) list"

record db =
  players :: "IPlayer collection"
  questions :: "IQuestion collection"

definition findById :: "oid \<Rightarrow> 'a collection \<Rightarrow> 'a option" where
  "findById i c = map_of c i"

definition updateById :: "oid \<Rightarrow> ('a \<Rightarrow> 'a) \<Rightarrow> 'a collection \<Rightarrow> 'a collection" where
  "updateById i f c = map (\<lambda>(j, d). if j = i then (j, f d) else (j, d)) c"

text \<open>A new document gets an id that no document of the collection has.\<close>

definition freshId :: "'a collection \<Rightarrow> oid" where
  "freshId c = Suc (fold max (map fst c) 0)"

definition insertDoc :: "'a \<Rightarrow> 'a collection \<Rightarrow> oid \<times> 'a collection" where
  "insertDoc doc c = (freshId c, c @ [(freshId c, doc)])"

text \<open>
  \<open>Question.create({text, answer, isActive: true})\<close>: the schema defaults fill the winner
  fields with \<open>null\<close>, the timestamps option sets \<open>createdAt\<close> to the current time.
\<close>

definition createQuestion :: "generatedQuestion \<Rightarrow> int \<Rightarrow> db \<Rightarrow> (oid \<times> IQuestion) \<times> db" where
  "createQuestion g now d =
     (let q = \<lparr>qtext = genText g, answer = genAnswer g, isActive = True,
               winnerId = None, winnerName = None, createdAt = now\<rparr>;
          (qid, qs) = insertDoc q (questions d)
      in ((qid, q), d\<lparr>questions := qs\<rparr>))"

text \<open>
  \<open>Question.findByIdAndUpdate(questionId, {isActive: false})\<close>, and \<open>question.save()\<close>
  after \<open>question.isActive = false\<close>, which writes the modified path only.
\<close>

definition deactivate :: "oid \<Rightarrow> db \<Rightarrow> db" where
  "deactivate qid d = d\<lparr>questions := updateById qid (\<lambda>q. q\<lparr>isActive := False\<rparr>) (questions d)\<rparr>"

text \<open>
  \<open>Question.findOneAndUpdate({_id, winnerId: null, isActive: true}, {winnerId, winnerName},
  {new: true})\<close>: one atomic operation of the store; it returns the updated document, or
  \<open>null\<close> when no document matches the filter.
\<close>

definition claimQuestion :: "oid \<Rightarrow> oid \<Rightarrow> jsString \<Rightarrow> db \<Rightarrow> IQuestion option \<times> db" where
  "claimQuestion qid pid name d =
     (case findById qid (questions d) of
        None \<Rightarrow> (None, d)
      | Some q \<Rightarrow>
          (if winnerId q = None \<and> isActive q
           then (Some (q\<lparr>winnerId := Some pid, winnerName := Some name\<rparr>),
                 d\<lparr>questions :=
                     updateById qid (\<lambda>q. q\<lparr>winnerId := Some pid, winnerName := Some name\<rparr>)
                       (questions d)\<rparr>)
           else (None, d)))"

text \<open>
  \<open>Question.findOne({isActive: true}).sort({createdAt: -1})\<close>: the active question
  created last; among equal timestamps the one stored first.
\<close>

definition findOneActive :: "db \<Rightarrow> (oid \<times> IQuestion) option" where
  "findOneActive d =
     (case filter (\<lambda>(i, q). isActive q) (questions d) of
        [] \<Rightarrow> None
      | x # xs \<Rightarrow>
          Some (fold (\<lambda>y best. if createdAt (snd best) < createdAt (snd y) then y else best) xs x))"

text \<open>\<open>Player.findByIdAndUpdate(playerId, {$inc: {score: 1}})\<close>.\<close>

definition incScore :: "oid \<Rightarrow> db \<Rightarrow> db" where
  "incScore pid d = d\<lparr>players := updateById pid (\<lambda>p. p\<lparr>score := score p + 1\<rparr>) (players d)\<rparr>"

text \<open>\<open>Player.findOne({username})\<close>.\<close>

definition findByUsername :: "jsString \<Rightarrow> db \<Rightarrow> (oid \<times> IPlayer) option" where
  "findByUsername u d = find (\<lambda>(i, p). username p = u) (players d)"

text \<open>
  \<open>Player.create\<close>; the unique index on \<open>username\<close> rejects a second player of the same
  name (\<open>None\<close>).
\<close>

definition createPlayer :: "IPlayer \<Rightarrow> db \<Rightarrow> ((oid \<times> IPlayer) \<times> db) option" where
  "createPlayer p d =
     (case findByUsername (username p) d of
        Some other \<Rightarrow> None
      | None \<Rightarrow>
          (let (pid, ps) = insertDoc p (players d) in Some ((pid, p), d\<lparr>players := ps\<rparr>)))"

text \<open>\<open>player.save()\<close> after \<open>player.score = 0\<close>: writes the modified path only.\<close>

definition resetScore :: "oid \<Rightarrow> db \<Rightarrow> db" where
  "resetScore pid d = d\<lparr>players := updateById pid (\<lambda>p. p\<lparr>score := 0\<rparr>) (players d)\<rparr>"

text \<open>
  \<open>Player.find({}).sort({score: -1}).limit(10)\<close>; players of equal score stay in storage
  order.
\<close>

definition topPlayers :: "db \<Rightarrow> (oid \<times> IPlayer) list" where
  "topPlayers d = take 10 (sort_key (\<lambda>(i, p). - score p) (players d))"

section \<open>POST /api/answer (src/app/api/answer/route.ts)\<close>

text \<open>
  The request. The body is \<open>None\<close> when \<open>await req.json()\<close> or the destructuring of its
  result throws. An id field is \<open>None\<close> when it is falsy (absent, \<open>null\<close>, the empty
  string); a truthy one is a well-formed ObjectId string or a value that Mongoose cannot
  cast to an ObjectId, on which \<open>findById\<close> throws. The \<open>answer\<close> field, after
  \<open>Number(answer)\<close>, is absent (\<open>undefined\<close> or \<open>null\<close>), not a number, or a number.
  The store itself is taken to be available: no storage operation fails on its own.
\<close>

datatype idString = Malformed | WellFormed oid

datatype jsNumber = Missing | NotNumeric | Numeric int

record answerBody =
  bodyPlayerId :: "idString option"
  bodyQuestionId :: "idString option"
  bodyAnswer :: jsNumber

text \<open>
  A response: an error with its HTTP status, or the JSON object
  \<open>{correct, won, message}\<close>.
\<close>

datatype answerResponse = Failure nat jsString | Verdict bool bool jsString

text \<open>The trophy U+1F3C6 is a surrogate pair.\<close>

definition winMessage :: "jsString \<Rightarrow> jsString" where
  "winMessage name = [0xD83C, 0xDFC6] @ ascii '' '' @ name @ ascii '' wins!''"

text \<open>The response of the \<open>catch\<close> block, lines 85 to 88.\<close>

definition serverError :: answerResponse where
  "serverError = Failure 500 (ascii ''Server error'')"

text \<open>Lines 9 to 25: reading the body and the two validation checks.\<close>

definition validateAnswer ::
  "answerBody option \<Rightarrow> answerResponse + (idString \<times> idString \<times> int)" where
  "validateAnswer req =
     (case req of
        None \<Rightarrow> Inl serverError
      | Some b \<Rightarrow>
          (case (bodyPlayerId b, bodyQuestionId b, bodyAnswer b) of
             (Some pid, Some qid, Numeric n) \<Rightarrow> Inr (pid, qid, n)
           | (Some pid, Some qid, NotNumeric) \<Rightarrow>
               Inl (Failure 400 (ascii ''Answer must be a number''))
           | _ \<Rightarrow> Inl (Failure 400 (ascii ''playerId, questionId, and answer are required''))))"

text \<open>
  Lines 28 to 44: read the question and reject; \<open>None\<close> lets the call go on. A malformed
  id makes \<open>Question.findById\<close> throw.
\<close>

definition checkQuestion :: "idString \<Rightarrow> int \<Rightarrow> db \<Rightarrow> answerResponse option" where
  "checkQuestion qid n d =
     (case qid of
        Malformed \<Rightarrow> Some serverError
      | WellFormed q \<Rightarrow>
          (case findById q (questions d) of
             None \<Rightarrow> Some (Failure 404 (ascii ''Question not found''))
           | Some qd \<Rightarrow>
               (if \<not> isActive qd
                then Some (Verdict False False (ascii ''Question is no longer active''))
                else if winnerId qd \<noteq> None
                then Some (Verdict False False (ascii ''Someone already answered correctly''))
                else if n \<noteq> answer qd
                then Some (Verdict False False (ascii ''Wrong answer, try again!''))
                else None)))"

text \<open>
  Lines 47 to 50: read the player. A malformed id makes \<open>Player.findById\<close> throw.
\<close>

definition findPlayer :: "idString \<Rightarrow> db \<Rightarrow> answerResponse + (oid \<times> IPlayer)" where
  "findPlayer pid d =
     (case pid of
        Malformed \<Rightarrow> Inl serverError
      | WellFormed p \<Rightarrow>
          (case findById p (players d) of
             None \<Rightarrow> Inl (Failure 404 (ascii ''Player not found''))
           | Some player \<Rightarrow> Inr (p, player)))"

definition ROTATION_DELAY_MS :: nat where
  "ROTATION_DELAY_MS = 3000"

text \<open>
  The handler run without interference from other requests. It returns the response, the
  store, and the timers it has set: the question to rotate and the delay.
\<close>

definition answer_POST ::
  "answerBody option \<Rightarrow> db \<Rightarrow> answerResponse \<times> db \<times> (oid \<times> nat) list" where
  "answer_POST req d =
     (case validateAnswer req of
        Inl r \<Rightarrow> (r, d, [])
      | Inr (pid, qid, n) \<Rightarrow>
          (case checkQuestion qid n d of
             Some r \<Rightarrow> (r, d, [])
           | None \<Rightarrow>
               (case (findPlayer pid d, qid) of
                  (Inl r, _) \<Rightarrow> (r, d, [])
                | (Inr (p, player), Malformed) \<Rightarrow> (serverError, d, [])
                | (Inr (p, player), WellFormed q) \<Rightarrow>
                    (case claimQuestion q p (username player) d of
                       (None, d1) \<Rightarrow>
                         (Verdict True False (ascii ''Correct, but someone was faster!''), d1, [])
                     | (Some result, d1) \<Rightarrow>
                         (Verdict True True (winMessage (username player)),
                          incScore p d1, [(q, ROTATION_DELAY_MS)])))))"

text \<open>The ids of a request, when it has well-formed ones.\<close>

definition questionOf :: "answerBody option \<Rightarrow> oid option" where
  "questionOf req =
     (case req of
        Some b \<Rightarrow> (case bodyQuestionId b of Some (WellFormed q) \<Rightarrow> Some q | _ \<Rightarrow> None)
      | None \<Rightarrow> None)"

definition playerOf :: "answerBody option \<Rightarrow> oid option" where
  "playerOf req =
     (case req of
        Some b \<Rightarrow> (case bodyPlayerId b of Some (WellFormed p) \<Rightarrow> Some p | _ \<Rightarrow> None)
      | None \<Rightarrow> None)"

text \<open>The six outcomes of the specification, and the response that each one is.\<close>

datatype outcome = QuestionNotFound | Inactive | AlreadyWon | WrongAnswer | TooLate | Win

fun outcomeOf :: "answerResponse \<Rightarrow> outcome option" where
  "outcomeOf (Failure st msg) =
     (if st = 404 \<and> msg = ascii ''Question not found'' then Some QuestionNotFound else None)"
| "outcomeOf (Verdict correct won msg) =
     (if correct then (if won then Some Win else Some TooLate)
      else if won then None
      else if msg = ascii ''Question is no longer active'' then Some Inactive
      else if msg = ascii ''Someone already answered correctly'' then Some AlreadyWon
      else if msg = ascii ''Wrong answer, try again!'' then Some WrongAnswer
      else None)"

text \<open>
  The responses outside the six: the two validation errors, the missing player, and the
  server error of a body or an id that cannot be read.
\<close>

definition otherResponse :: "answerResponse \<Rightarrow> bool" where
  "otherResponse r =
     (r = Failure 400 (ascii ''playerId, questionId, and answer are required'') \<or>
      r = Failure 400 (ascii ''Answer must be a number'') \<or>
      r = Failure 404 (ascii ''Player not found'') \<or>
      r = serverError)"

text \<open>What a call without interference returns, as the first check that fails.\<close>

definition expectedResponse :: "answerBody option \<Rightarrow> db \<Rightarrow> answerResponse" where
  "expectedResponse req d =
     (case req of
        None \<Rightarrow> serverError
      | Some b \<Rightarrow>
     (case bodyPlayerId b of
        None \<Rightarrow> Failure 400 (ascii ''playerId, questionId, and answer are required'')
      | Some pid \<Rightarrow>
     (case bodyQuestionId b of
        None \<Rightarrow> Failure 400 (ascii ''playerId, questionId, and answer are required'')
      | Some qid \<Rightarrow>
     (case bodyAnswer b of
        Missing \<Rightarrow> Failure 400 (ascii ''playerId, questionId, and answer are required'')
      | NotNumeric \<Rightarrow> Failure 400 (ascii ''Answer must be a number'')
      | Numeric n \<Rightarrow>
     (case qid of
        Malformed \<Rightarrow> serverError
      | WellFormed q \<Rightarrow>
     (case findById q (questions d) of
        None \<Rightarrow> Failure 404 (ascii ''Question not found'')
      | Some qd \<Rightarrow>
          if \<not> isActive qd
          then Verdict False False (ascii ''Question is no longer active'')
          else if winnerId qd \<noteq> None
          then Verdict False False (ascii ''Someone already answered correctly'')
          else if n \<noteq> answer qd
          then Verdict False False (ascii ''Wrong answer, try again!'')
          else (case pid of
                  Malformed \<Rightarrow> serverError
                | WellFormed p \<Rightarrow>
                    (case findById p (players d) of
                       None \<Rightarrow> Failure 404 (ascii ''Player not found'')
                     | Some player \<Rightarrow> Verdict True True (winMessage (username player))))))))))"

section \<open>GET /api/question\<close>

definition QUESTION_TIMEOUT_MS :: int where
  "QUESTION_TIMEOUT_MS = 60000"

datatype getResponse = Snapshot questionData | ServerError

text \<open>The leaderboard query and the JSON body, from the question the handler holds.\<close>

definition snapshot :: "oid \<Rightarrow> IQuestion \<Rightarrow> int \<Rightarrow> db \<Rightarrow> questionData" where
  "snapshot qid q now d =
     \<lparr>questionId = qid, dataText = qtext q, dataWinnerId = winnerId q,
      dataWinnerName = winnerName q,
      remainingMs = max 0 (QUESTION_TIMEOUT_MS - (now - createdAt q)),
      leaderboard = map (\<lambda>(i, p). (i, username p, score p)) (topPlayers d)\<rparr>"

text \<open>
  The handler run without interference, at one reading \<open>now\<close> of the clock and with the
  three draws that \<open>generateQuestion\<close> would take. An exception of the generator is the
  500 response of the \<open>catch\<close> block.
\<close>

definition question_GET ::
  "int \<Rightarrow> unitDouble \<times> unitDouble \<times> unitDouble \<Rightarrow> db \<Rightarrow> getResponse \<times> db" where
  "question_GET now draws d =
     (case findOneActive d of
        None \<Rightarrow>
          (case generateQuestion (fst draws) (fst (snd draws)) (snd (snd draws)) of
             None \<Rightarrow> (ServerError, d)
           | Some g \<Rightarrow>
               (case createQuestion g now d of
                  ((qid, q), d1) \<Rightarrow> (Snapshot (snapshot qid q now d1), d1)))
      | Some (qid, q) \<Rightarrow>
          (if winnerId q = None \<and> now - createdAt q > QUESTION_TIMEOUT_MS
           then (let d1 = deactivate qid d in
                 case generateQuestion (fst draws) (fst (snd draws)) (snd (snd draws)) of
                   None \<Rightarrow> (ServerError, d1)
                 | Some g \<Rightarrow>
                     (case createQuestion g now d1 of
                        ((qid', q'), d2) \<Rightarrow> (Snapshot (snapshot qid' q' now d2), d2)))
           else (Snapshot (snapshot qid q now d), d)))"

section \<open>POST /api/join: the two implementations\<close>

datatype joinResponse = JoinFailure nat jsString | Joined oid jsString int "int option"

text \<open>
  \<open>String.prototype.trim\<close> removes the white space and the line terminators of
  ECMAScript from both ends; all of them are single code units. \<open>substring(0, 20)\<close> keeps
  the first 20 code units.
\<close>

definition whiteSpace :: "nat list" where
  "whiteSpace =
     [0x0009, 0x000A, 0x000B, 0x000C, 0x000D, 0x0020, 0x00A0, 0x1680,
      0x2000, 0x2001, 0x2002, 0x2003, 0x2004, 0x2005, 0x2006, 0x2007, 0x2008, 0x2009, 0x200A,
      0x2028, 0x2029, 0x202F, 0x205F, 0x3000, 0xFEFF]"

definition isSpace :: "nat \<Rightarrow> bool" where
  "isSpace c = (c \<in> set whiteSpace)"

definition trim :: "jsString \<Rightarrow> jsString" where
  "trim s = rev (dropWhile isSpace (rev (dropWhile isSpace s)))"

text \<open>
  The \<open>username\<close> field of the body: falsy (absent, \<open>null\<close>, the empty string), a truthy
  value that is not a string, on which \<open>username.trim()\<close> throws, or a string. The body is
  \<open>None\<close> when \<open>await req.json()\<close> or the destructuring throws.
\<close>

datatype usernameField = Falsy | NotAString | Name jsString

definition joinError :: joinResponse where
  "joinError = JoinFailure 500 (ascii ''Server error'')"

definition usernameRequired :: joinResponse where
  "usernameRequired = JoinFailure 400 (ascii ''Username is required'')"

text \<open>src/app/api/join/route.ts: an existing player is returned as stored.\<close>

definition join_POST :: "usernameField option \<Rightarrow> db \<Rightarrow> joinResponse \<times> db" where
  "join_POST body d =
     (case body of
        None \<Rightarrow> (joinError, d)
      | Some Falsy \<Rightarrow> (usernameRequired, d)
      | Some NotAString \<Rightarrow> (joinError, d)
      | Some (Name u) \<Rightarrow>
          (if length (trim u) = 0 then (usernameRequired, d)
           else (let trimmed = take 20 (trim u) in
                 case findByUsername trimmed d of
                   None \<Rightarrow>
                     (case createPlayer \<lparr>username = trimmed, score = 0, highScore = 0\<rparr> d of
                        None \<Rightarrow> (joinError, d)
                      | Some ((pid, p), d1) \<Rightarrow> (Joined pid (username p) (score p) None, d1))
                 | Some (pid, p) \<Rightarrow> (Joined pid (username p) (score p) None, d))))"

text \<open>The second implementation (unnamed/part_001): an existing player's score is reset.\<close>

definition join_POST_reset :: "usernameField option \<Rightarrow> db \<Rightarrow> joinResponse \<times> db" where
  "join_POST_reset body d =
     (case body of
        None \<Rightarrow> (joinError, d)
      | Some Falsy \<Rightarrow> (usernameRequired, d)
      | Some NotAString \<Rightarrow> (joinError, d)
      | Some (Name u) \<Rightarrow>
          (if length (trim u) = 0 then (usernameRequired, d)
           else (let trimmed = take 20 (trim u) in
                 case findByUsername trimmed d of
                   None \<Rightarrow>
                     (case createPlayer \<lparr>username = trimmed, score = 0, highScore = 0\<rparr> d of
                        None \<Rightarrow> (joinError, d)
                      | Some ((pid, p), d1) \<Rightarrow>
                          (Joined pid (username p) (score p) (Some (highScore p)), d1))
                 | Some (pid, p) \<Rightarrow>
                     (Joined pid (username p) 0 (Some (highScore p)), resetScore pid d))))"

text \<open>What the specification says of a join, for a body whose user name is not blank.\<close>

definition rejoinSemantics ::
  "(usernameField option \<Rightarrow> db \<Rightarrow> joinResponse \<times> db) \<Rightarrow> jsString \<Rightarrow> db \<Rightarrow> bool" where
  "rejoinSemantics join u d =
     (case findByUsername (take 20 (trim u)) d of
        Some (pid, p) \<Rightarrow>
          findById pid (players (snd (join (Some (Name u)) d))) = Some (p\<lparr>score := 0\<rparr>)
      | None \<Rightarrow>
          findByUsername (take 20 (trim u)) (snd (join (Some (Name u)) d)) =
            Some (freshId (players d),
                  \<lparr>username = take 20 (trim u), score = 0, highScore = 0\<rparr>))"

section \<open>Requests in flight: the handlers as interleaved steps\<close>

text \<open>
  Requests run concurrently: between two storage operations of one request, other requests
  may run theirs. Each request in flight is a thread that stands before its next storage
  operation; one step runs that operation and the code up to the next one. The timer that
  a winning answer sets is a thread of its own, due 3000 ms after it was set.
\<close>

datatype answerPc =
  ReadQuestion | ReadPlayer | ClaimWin jsString | AwardScore jsString | Responded answerResponse

datatype timerPc = Pending | Retired | Fired | TimerFailed

datatype pollPc =
  FindActive | RetireOld oid | CreateNext | ReadLeaderboard oid IQuestion | PollDone getResponse

datatype joinPc =
  FindPlayer | InsertPlayer jsString | SaveScore oid IPlayer | JoinDone joinResponse

datatype joinVersion = KeepScore | ResetScore

datatype thread =
  AnswerT "answerBody option" answerPc
| TimerT oid int timerPc
| PollT pollPc
| JoinT joinVersion "usernameField option" joinPc

text \<open>
  \<open>POST /api/answer\<close>, one storage operation at a time. The first step reads the body,
  validates it and reads the question; an exception at any step is the 500 response of
  the \<open>catch\<close> block. The last two steps use the ids that the first two have read; a
  call never stands there without them (lemma \<open>idsRead_run\<close>).
\<close>

fun answerStep ::
  "answerBody option \<Rightarrow> answerPc \<Rightarrow> int \<Rightarrow> db \<Rightarrow> answerPc \<times> db \<times> thread list" where
  "answerStep req ReadQuestion now d =
     (case validateAnswer req of
        Inl r \<Rightarrow> (Responded r, d, [])
      | Inr (pid, qid, n) \<Rightarrow>
          (case checkQuestion qid n d of
             Some r \<Rightarrow> (Responded r, d, [])
           | None \<Rightarrow> (ReadPlayer, d, [])))"
| "answerStep req ReadPlayer now d =
     (case validateAnswer req of
        Inl r \<Rightarrow> (Responded r, d, [])
      | Inr (pid, qid, n) \<Rightarrow>
          (case findPlayer pid d of
             Inl r \<Rightarrow> (Responded r, d, [])
           | Inr (p, player) \<Rightarrow> (ClaimWin (username player), d, [])))"
| "answerStep req (ClaimWin name) now d =
     (case (questionOf req, playerOf req) of
        (Some q, Some p) \<Rightarrow>
          (case claimQuestion q p name d of
             (None, d1) \<Rightarrow>
               (Responded (Verdict True False (ascii ''Correct, but someone was faster!'')),
                d1, [])
           | (Some result, d1) \<Rightarrow> (AwardScore name, d1, []))
      | _ \<Rightarrow> (Responded serverError, d, []))"
| "answerStep req (AwardScore name) now d =
     (case (questionOf req, playerOf req) of
        (Some q, Some p) \<Rightarrow>
          (Responded (Verdict True True (winMessage name)), incScore p d,
           [TimerT q (now + int ROTATION_DELAY_MS) Pending])
      | _ \<Rightarrow> (Responded serverError, d, []))"
| "answerStep req (Responded r) now d = (Responded r, d, [])"

text \<open>The callback of \<open>setTimeout\<close>: retire the question, then create the next one.\<close>

fun timerStep ::
  "oid \<Rightarrow> int \<Rightarrow> timerPc \<Rightarrow> int \<Rightarrow> unitDouble \<times> unitDouble \<times> unitDouble \<Rightarrow> db \<Rightarrow> timerPc \<times> db" where
  "timerStep qid due Pending now draws d =
     (if due \<le> now then (Retired, deactivate qid d) else (Pending, d))"
| "timerStep qid due Retired now draws d =
     (case generateQuestion (fst draws) (fst (snd draws)) (snd (snd draws)) of
        None \<Rightarrow> (TimerFailed, d)
      | Some g \<Rightarrow> (Fired, snd (createQuestion g now d)))"
| "timerStep qid due Fired now draws d = (Fired, d)"
| "timerStep qid due TimerFailed now draws d = (TimerFailed, d)"

text \<open>\<open>GET /api/question\<close>, one storage operation at a time.\<close>

fun pollStep :: "pollPc \<Rightarrow> int \<Rightarrow> unitDouble \<times> unitDouble \<times> unitDouble \<Rightarrow> db \<Rightarrow> pollPc \<times> db" where
  "pollStep FindActive now draws d =
     (case findOneActive d of
        None \<Rightarrow> (CreateNext, d)
      | Some (qid, q) \<Rightarrow>
          (if winnerId q = None \<and> now - createdAt q > QUESTION_TIMEOUT_MS
           then (RetireOld qid, d)
           else (ReadLeaderboard qid q, d)))"
| "pollStep (RetireOld qid) now draws d = (CreateNext, deactivate qid d)"
| "pollStep CreateNext now draws d =
     (case generateQuestion (fst draws) (fst (snd draws)) (snd (snd draws)) of
        None \<Rightarrow> (PollDone ServerError, d)
      | Some g \<Rightarrow>
          (case createQuestion g now d of ((qid, q), d1) \<Rightarrow> (ReadLeaderboard qid q, d1)))"
| "pollStep (ReadLeaderboard qid q) now draws d = (PollDone (Snapshot (snapshot qid q now d)), d)"
| "pollStep (PollDone r) now draws d = (PollDone r, d)"

text \<open>\<open>POST /api/join\<close> in its two versions, one storage operation at a time.\<close>

fun joinStep :: "joinVersion \<Rightarrow> usernameField option \<Rightarrow> joinPc \<Rightarrow> db \<Rightarrow> joinPc \<times> db" where
  "joinStep v body FindPlayer d =
     (case body of
        None \<Rightarrow> (JoinDone joinError, d)
      | Some Falsy \<Rightarrow> (JoinDone usernameRequired, d)
      | Some NotAString \<Rightarrow> (JoinDone joinError, d)
      | Some (Name u) \<Rightarrow>
          (if length (trim u) = 0 then (JoinDone usernameRequired, d)
           else (let trimmed = take 20 (trim u) in
                 case findByUsername trimmed d of
                   None \<Rightarrow> (InsertPlayer trimmed, d)
                 | Some (pid, p) \<Rightarrow>
                     (case v of
                        KeepScore \<Rightarrow> (JoinDone (Joined pid (username p) (score p) None), d)
                      | ResetScore \<Rightarrow> (SaveScore pid p, d)))))"
| "joinStep v body (InsertPlayer trimmed) d =
     (case createPlayer \<lparr>username = trimmed, score = 0, highScore = 0\<rparr> d of
        None \<Rightarrow> (JoinDone joinError, d)
      | Some ((pid, p), d1) \<Rightarrow>
          (JoinDone (Joined pid (username p) (score p)
             (case v of KeepScore \<Rightarrow> None | ResetScore \<Rightarrow> Some (highScore p))), d1))"
| "joinStep v body (SaveScore pid p) d =
     (JoinDone (Joined pid (username p) 0 (Some (highScore p))), resetScore pid d)"
| "joinStep v body (JoinDone r) d = (JoinDone r, d)"

text \<open>One step of a thread: the new thread, the new store and the threads it started.\<close>

fun threadStep ::
  "thread \<Rightarrow> int \<Rightarrow> unitDouble \<times> unitDouble \<times> unitDouble \<Rightarrow> db \<Rightarrow> thread \<times> db \<times> thread list" where
  "threadStep (AnswerT req pc) now draws d =
     (case answerStep req pc now d of (pc', d', started) \<Rightarrow> (AnswerT req pc', d', started))"
| "threadStep (TimerT qid due pc) now draws d =
     (case timerStep qid due pc now draws d of (pc', d') \<Rightarrow> (TimerT qid due pc', d', []))"
| "threadStep (PollT pc) now draws d =
     (case pollStep pc now draws d of (pc', d') \<Rightarrow> (PollT pc', d', []))"
| "threadStep (JoinT v body pc) now draws d =
     (case joinStep v body pc d of (pc', d') \<Rightarrow> (JoinT v body pc', d', []))"

text \<open>
  The system: the store and the threads. An event names the thread that runs its next
  step, the reading of the clock and the draws of the random generator at that step. A
  schedule is any list of events.
\<close>

record system =
  store :: db
  pool :: "thread list"

type_synonym event = "nat \<times> int \<times> (unitDouble \<times> unitDouble \<times> unitDouble)"

definition systemStep :: "event \<Rightarrow> system \<Rightarrow> system" where
  "systemStep ev s =
     (case ev of (tid, now, draws) \<Rightarrow>
        (if tid < length (pool s)
         then (case threadStep (pool s ! tid) now draws (store s) of
                 (t', d', started) \<Rightarrow> \<lparr>store = d', pool = (pool s)[tid := t'] @ started\<rparr>)
         else s))"

definition systemRun :: "event list \<Rightarrow> system \<Rightarrow> system" where
  "systemRun evs s = fold systemStep evs s"

text \<open>A submitted answer, a poll and a join that have not started yet.\<close>

definition submit :: "answerBody option \<Rightarrow> thread" where
  "submit req = AnswerT req ReadQuestion"

fun isWin :: "answerResponse \<Rightarrow> bool" where
  "isWin (Verdict correct won msg) = (correct \<and> won)"
| "isWin (Failure st msg) = False"

text \<open>
  A call has won question \<open>q\<close> when its conditional update on \<open>q\<close> succeeded; it has been
  credited to player \<open>p\<close> when it has returned the win to \<open>p\<close>.
\<close>

fun wonQuestion :: "oid \<Rightarrow> thread \<Rightarrow> bool" where
  "wonQuestion q (AnswerT req (AwardScore name)) = (questionOf req = Some q)"
| "wonQuestion q (AnswerT req (Responded r)) = (questionOf req = Some q \<and> isWin r)"
| "wonQuestion q t = False"

fun credited :: "oid \<Rightarrow> thread \<Rightarrow> bool" where
  "credited p (AnswerT req (Responded r)) = (playerOf req = Some p \<and> isWin r)"
| "credited p t = False"

definition scoreOf :: "oid \<Rightarrow> db \<Rightarrow> int" where
  "scoreOf p d = (case findById p (players d) of None \<Rightarrow> 0 | Some pl \<Rightarrow> score pl)"

text \<open>The number of own steps after which an answer call has responded.\<close>

fun stepsLeft :: "thread \<Rightarrow> nat" where
  "stepsLeft (AnswerT b ReadQuestion) = 4"
| "stepsLeft (AnswerT b ReadPlayer) = 3"
| "stepsLeft (AnswerT b (ClaimWin name)) = 2"
| "stepsLeft (AnswerT b (AwardScore name)) = 1"
| "stepsLeft t = 0"

section \<open>Sample stores and requests\<close>

text \<open>
  One player with a score and a high score, and one active question without a winner,
  created at time 0.
\<close>

definition sampleStore :: db where
  "sampleStore =
     \<lparr>players = [(1, \<lparr>username = ascii ''al'', score = 5, highScore = 7\<rparr>)],
      questions = [(1, \<lparr>qtext = ascii ''7 + 8'', answer = 15, isActive = True, winnerId = None,
                        winnerName = None, createdAt = 0\<rparr>)]\<rparr>"

text \<open>The same store after player 1 has won question 1 and no rotation has run.\<close>

definition wonStore :: db where
  "wonStore =
     \<lparr>players = [(1, \<lparr>username = ascii ''al'', score = 6, highScore = 7\<rparr>)],
      questions = [(1, \<lparr>qtext = ascii ''7 + 8'', answer = 15, isActive = True, winnerId = Some 1,
                        winnerName = Some (ascii ''al''), createdAt = 0\<rparr>)]\<rparr>"

text \<open>The draw 0, three times.\<close>

definition zeroDraw :: unitDouble where
  "zeroDraw = \<lparr>mantissa = 0, scale = 0\<rparr>"

definition sampleDraws :: "unitDouble \<times> unitDouble \<times> unitDouble" where
  "sampleDraws = (zeroDraw, zeroDraw, zeroDraw)"

text \<open>The right answer from player 1, from an unknown player 2, and a wrong answer.\<close>

definition rightAnswer :: answerBody where
  "rightAnswer =
     \<lparr>bodyPlayerId = Some (WellFormed 1), bodyQuestionId = Some (WellFormed 1),
      bodyAnswer = Numeric 15\<rparr>"

definition strangerAnswer :: answerBody where
  "strangerAnswer =
     \<lparr>bodyPlayerId = Some (WellFormed 2), bodyQuestionId = Some (WellFormed 1),
      bodyAnswer = Numeric 15\<rparr>"

definition wrongAnswer :: answerBody where
  "wrongAnswer =
     \<lparr>bodyPlayerId = Some (WellFormed 1), bodyQuestionId = Some (WellFormed 1),
      bodyAnswer = Numeric 14\<rparr>"

text \<open>
  The right answer with a question id, and with a player id, that is not an ObjectId.
\<close>

definition badQuestionAnswer :: answerBody where
  "badQuestionAnswer =
     \<lparr>bodyPlayerId = Some (WellFormed 1), bodyQuestionId = Some Malformed,
      bodyAnswer = Numeric 15\<rparr>"

definition badPlayerAnswer :: answerBody where
  "badPlayerAnswer =
     \<lparr>bodyPlayerId = Some Malformed, bodyQuestionId = Some (WellFormed 1),
      bodyAnswer = Numeric 15\<rparr>"

text \<open>Well-formed stores: no two documents of a collection share an id.\<close>

definition distinctIds :: "db \<Rightarrow> bool" where
  "distinctIds d = (distinct (map fst (players d)) \<and> distinct (map fst (questions d)))"

section \<open>Properties of stores, threads and runs\<close>

text \<open>
  What a \<open>GET /api/question\<close> that rotates leaves behind: the response shows the new
  question with the full window remaining, the old question is stored retired, the new one
  is stored active with the current time, and no player has changed.
\<close>

definition rotated ::
  "int \<Rightarrow> generatedQuestion \<Rightarrow> oid \<Rightarrow> IQuestion \<Rightarrow> db \<Rightarrow> getResponse \<times> db \<Rightarrow> bool" where
  "rotated now g qid q d res =
     (let newId = freshId (questions d);
          newQ = \<lparr>qtext = genText g, answer = genAnswer g, isActive = True, winnerId = None,
                  winnerName = None, createdAt = now\<rparr>
      in fst res = Snapshot (snapshot newId newQ now d) \<and>
         remainingMs (snapshot newId newQ now d) = 60000 \<and>
         findById qid (questions (snd res)) = Some (q\<lparr>isActive := False\<rparr>) \<and>
         findById newId (questions (snd res)) = Some newQ \<and>
         newId \<noteq> qid \<and>
         players (snd res) = players d)"

text \<open>
  The store \<open>d'\<close> continues the store \<open>d\<close>: every player of \<open>d\<close> is still there with the
  same name and high score, and every question of \<open>d\<close> is still there with the same
  answer, and with a winner if it had one.
\<close>

definition continues :: "db \<Rightarrow> db \<Rightarrow> bool" where
  "continues d d' =
     ((\<forall>p pl. findById p (players d) = Some pl \<longrightarrow>
         (\<exists>pl'. findById p (players d') = Some pl' \<and> highScore pl' = highScore pl \<and>
                username pl' = username pl)) \<and>
      (\<forall>q qd. findById q (questions d) = Some qd \<longrightarrow>
         (\<exists>qd'. findById q (questions d') = Some qd' \<and> answer qd' = answer qd \<and>
                (winnerId qd \<noteq> None \<longrightarrow> winnerId qd' \<noteq> None))))"

text \<open>Threads that have not taken a step, and the join threads.\<close>

fun notStarted :: "thread \<Rightarrow> bool" where
  "notStarted (AnswerT b ReadQuestion) = True"
| "notStarted (PollT FindActive) = True"
| "notStarted (JoinT v u FindPlayer) = True"
| "notStarted t = False"

fun isJoin :: "thread \<Rightarrow> bool" where
  "isJoin (JoinT v u pc) = True"
| "isJoin t = False"

text \<open>The number of steps that a schedule gives to thread \<open>i\<close>.\<close>

definition ownSteps :: "nat \<Rightarrow> event list \<Rightarrow> nat" where
  "ownSteps i evs = length (filter (\<lambda>ev. fst ev = i) evs)"

text \<open>A response that is one of the six outcomes or one of the four other responses.\<close>

definition knownResponse :: "answerResponse \<Rightarrow> bool" where
  "knownResponse r = (outcomeOf r \<noteq> None \<or> otherResponse r)"

fun respondedKnown :: "thread \<Rightarrow> bool" where
  "respondedKnown (AnswerT b (Responded r)) = knownResponse r"
| "respondedKnown t = True"

text \<open>
  A call past its first step holds a question id that is an ObjectId; a call past its
  second step holds a player id that is one, too.
\<close>

fun idsRead :: "thread \<Rightarrow> bool" where
  "idsRead (AnswerT req ReadPlayer) = (questionOf req \<noteq> None)"
| "idsRead (AnswerT req (ClaimWin name)) = (questionOf req \<noteq> None \<and> playerOf req \<noteq> None)"
| "idsRead (AnswerT req (AwardScore name)) = (questionOf req \<noteq> None \<and> playerOf req \<noteq> None)"
| "idsRead t = True"

text \<open>A thread that stands between reading its player and returning holds a stored player.\<close>

fun playerKnown :: "db \<Rightarrow> thread \<Rightarrow> bool" where
  "playerKnown d (AnswerT req (ClaimWin name)) =
     (case playerOf req of None \<Rightarrow> True | Some pid \<Rightarrow> findById pid (players d) \<noteq> None)"
| "playerKnown d (AnswerT req (AwardScore name)) =
     (case playerOf req of None \<Rightarrow> True | Some pid \<Rightarrow> findById pid (players d) \<noteq> None)"
| "playerKnown d t = True"

definition wins :: "oid \<Rightarrow> system \<Rightarrow> nat" where
  "wins q s = length (filter (wonQuestion q) (pool s))"

definition credits :: "oid \<Rightarrow> system \<Rightarrow> nat" where
  "credits p s = length (filter (credited p) (pool s))"

text \<open>
  The invariant of a race for question \<open>q\<close>, seen from player \<open>p\<close> whose score was \<open>base\<close>
  when the calls were submitted: at most one call has won \<open>q\<close>; if one has, \<open>q\<close> is stored
  with a winner; the score of \<open>p\<close> is \<open>base\<close> plus the wins returned to \<open>p\<close>; no thread is a
  join, and every call past its player lookup holds a stored player.
\<close>

definition raceInv :: "oid \<Rightarrow> oid \<Rightarrow> int \<Rightarrow> system \<Rightarrow> bool" where
  "raceInv q p base s =
     (wins q s \<le> 1 \<and>
      (0 < wins q s \<longrightarrow>
         (case findById q (questions (store s)) of
            None \<Rightarrow> False
          | Some qd \<Rightarrow> winnerId qd \<noteq> None)) \<and>
      scoreOf p (store s) = base + int (credits p s) \<and>
      list_all (\<lambda>t. playerKnown (store s) t \<and> \<not> isJoin t) (pool s))"

text \<open>The answer calls that have returned the win.\<close>

fun returnedWin :: "thread \<Rightarrow> bool" where
  "returnedWin (AnswerT req (Responded r)) = (outcomeOf r = Some Win)"
| "returnedWin t = False"

text \<open>
  A call that has responded with one of the five outcomes other than the win or with one
  of the four other responses; threads that have not responded count as such.
\<close>

fun respondedOther :: "thread \<Rightarrow> bool" where
  "respondedOther (AnswerT req (Responded r)) =
     (outcomeOf r \<in> {Some QuestionNotFound, Some Inactive, Some AlreadyWon, Some WrongAnswer,
                     Some TooLate} \<or>
      otherResponse r)"
| "respondedOther t = True"

text \<open>The answer calls of a batch that all go to question \<open>q\<close>.\<close>

fun targets :: "oid \<Rightarrow> thread \<Rightarrow> bool" where
  "targets q (AnswerT req pc) = (questionOf req = Some q)"
| "targets q t = True"

text \<open>
  Two calls with the right answer from player 1 that race for question 1, and a schedule
  that interleaves them step by step; then the timer of the winner, fired after 5000 ms.
\<close>

definition raceSchedule :: "event list" where
  "raceSchedule =
     [(0, 10, sampleDraws), (1, 11, sampleDraws), (0, 12, sampleDraws), (1, 13, sampleDraws),
      (0, 14, sampleDraws), (1, 15, sampleDraws), (0, 16, sampleDraws), (1, 17, sampleDraws),
      (2, 5000, sampleDraws), (2, 5001, sampleDraws)]"

definition raceStart :: system where
  "raceStart =
     \<lparr>store = sampleStore, pool = [submit (Some rightAnswer), submit (Some rightAnswer)]\<rparr>"

text \<open>A call from an unknown player next to one from player 1.\<close>

definition strangerStart :: system where
  "strangerStart =
     \<lparr>store = sampleStore,
      pool = [submit (Some strangerAnswer), submit (Some rightAnswer)]\<rparr>"

text \<open>
  Three calls that the handler cannot serve: a body that is not JSON, a question id and a
  player id that are not ObjectIds.
\<close>

definition faultyStart :: system where
  "faultyStart =
     \<lparr>store = sampleStore,
      pool = [submit None, submit (Some badQuestionAnswer), submit (Some badPlayerAnswer)]\<rparr>"

definition faultySchedule :: "event list" where
  "faultySchedule =
     [(0, 10, sampleDraws), (1, 11, sampleDraws), (2, 12, sampleDraws), (2, 13, sampleDraws)]"

text \<open>A join of each version, a poll and an answer call, all for the sample store.\<close>

definition mixedStart :: system where
  "mixedStart =
     \<lparr>store = sampleStore,
      pool = [JoinT ResetScore (Some (Name (ascii '' al ''))) FindPlayer,
              submit (Some rightAnswer),
              JoinT KeepScore (Some (Name (ascii ''bo''))) FindPlayer, PollT FindActive]\<rparr>"

definition mixedSchedule :: "event list" where
  "mixedSchedule =
     [(1, 10, sampleDraws), (0, 11, sampleDraws), (1, 12, sampleDraws), (2, 13, sampleDraws),
      (1, 14, sampleDraws), (0, 15, sampleDraws), (1, 16, sampleDraws), (2, 17, sampleDraws),
      (3, 18, sampleDraws), (3, 19, sampleDraws), (4, 5000, sampleDraws), (4, 5001, sampleDraws)]"

section \<open>Proofs: client\<close>

subsection \<open>Retry wrapper\<close>

lemma attempt_fetch_bound: "snd (attempt_fetch s) \<le> attempt_timeout"
  by (cases s) auto

lemma loop_stop: "\<not> a \<le> m \<Longrightarrow> fetchWithRetry_loop m b net a done = (None, done)"
  by (subst fetchWithRetry_loop.simps) simp

lemma loop_success:
  "a \<le> m \<Longrightarrow> attempt_fetch (net a) = (Some res, d) \<Longrightarrow>
   fetchWithRetry_loop m b net a done = (Some res, done @ [Attempt d])"
  by (subst fetchWithRetry_loop.simps) simp

lemma loop_retry:
  "a < m \<Longrightarrow> attempt_fetch (net a) = (None, d) \<Longrightarrow>
   fetchWithRetry_loop m b net a done =
   fetchWithRetry_loop m b net (Suc a) (done @ [Attempt d, Backoff (b * 2 ^ a)])"
  by (subst fetchWithRetry_loop.simps) simp

lemma loop_last:
  "attempt_fetch (net m) = (None, d) \<Longrightarrow>
   fetchWithRetry_loop m b net m done = (None, done @ [Attempt d])"
  by (subst fetchWithRetry_loop.simps) (simp add: loop_stop)

lemma loop_char:
  "Suc m - a = k \<Longrightarrow> 0 < k \<Longrightarrow>
   \<exists>n ds. 0 < n \<and> n \<le> k \<and> length ds = n \<and>
     (\<forall>i < n. ds ! i = snd (attempt_fetch (net (a + i)))) \<and>
     (\<forall>i < n - 1. fst (attempt_fetch (net (a + i))) = None) \<and>
     fst (fetchWithRetry_loop m b net a done) = fst (attempt_fetch (net (a + n - 1))) \<and>
     (fst (fetchWithRetry_loop m b net a done) = None \<longrightarrow> n = k) \<and>
     filter isAttempt (snd (fetchWithRetry_loop m b net a done)) =
       filter isAttempt done @ map Attempt ds \<and>
     filter isBackoff (snd (fetchWithRetry_loop m b net a done)) =
       filter isBackoff done @ map (\<lambda>i. Backoff (b * 2 ^ i)) [a ..< a + n - 1]"
proof (induction k arbitrary: a "done")
  case 0 then show ?case by simp
next
  case (Suc k)
  obtain x d where ad: "attempt_fetch (net a) = (x, d)" by (cases "attempt_fetch (net a)")
  from Suc.prems have am: "a \<le> m" by simp
  show ?case
  proof (cases x)
    case (Some res)
    with ad am have "fetchWithRetry_loop m b net a done = (Some res, done @ [Attempt d])"
      by (simp add: loop_success)
    with ad Some show ?thesis
      by (intro exI[of _ 1] exI[of _ "[d]"]) simp
  next
    case None
    show ?thesis
    proof (cases "a < m")
      case False
      with am have "a = m" by simp
      with ad None have "fetchWithRetry_loop m b net a done = (None, done @ [Attempt d])"
        by (simp add: loop_last)
      moreover from \<open>a = m\<close> Suc.prems have "k = 0" by simp
      ultimately show ?thesis using ad None
        by (intro exI[of _ 1] exI[of _ "[d]"]) simp
    next
      case True
      let ?done = "done @ [Attempt d, Backoff (b * 2 ^ a)]"
      from True ad None have eq: "fetchWithRetry_loop m b net a done =
          fetchWithRetry_loop m b net (Suc a) ?done"
        by (simp add: loop_retry)
      from True Suc.prems have k: "Suc m - Suc a = k" "0 < k" by simp_all
      from Suc.IH[OF k, of ?done] obtain n where "\<exists>ds. 0 < n \<and> n \<le> k \<and> length ds = n \<and>
     (\<forall>i < n. ds ! i = snd (attempt_fetch (net (Suc a + i)))) \<and>
     (\<forall>i < n - 1. fst (attempt_fetch (net (Suc a + i))) = None) \<and>
     fst (fetchWithRetry_loop m b net (Suc a) ?done) = fst (attempt_fetch (net (Suc a + n - 1))) \<and>
     (fst (fetchWithRetry_loop m b net (Suc a) ?done) = None \<longrightarrow> n = k) \<and>
     filter isAttempt (snd (fetchWithRetry_loop m b net (Suc a) ?done)) =
       filter isAttempt ?done @ map Attempt ds \<and>
     filter isBackoff (snd (fetchWithRetry_loop m b net (Suc a) ?done)) =
       filter isBackoff ?done @ map (\<lambda>i. Backoff (b * 2 ^ i)) [Suc a ..< Suc a + n - 1]" ..
      then obtain ds where all: "0 < n \<and> n \<le> k \<and> length ds = n \<and>
     (\<forall>i < n. ds ! i = snd (attempt_fetch (net (Suc a + i)))) \<and>
     (\<forall>i < n - 1. fst (attempt_fetch (net (Suc a + i))) = None) \<and>
     fst (fetchWithRetry_loop m b net (Suc a) ?done) = fst (attempt_fetch (net (Suc a + n - 1))) \<and>
     (fst (fetchWithRetry_loop m b net (Suc a) ?done) = None \<longrightarrow> n = k) \<and>
     filter isAttempt (snd (fetchWithRetry_loop m b net (Suc a) ?done)) =
       filter isAttempt ?done @ map Attempt ds \<and>
     filter isBackoff (snd (fetchWithRetry_loop m b net (Suc a) ?done)) =
       filter isBackoff ?done @ map (\<lambda>i. Backoff (b * 2 ^ i)) [Suc a ..< Suc a + n - 1]" ..
      note n = all[THEN conjunct1] all[THEN conjunct2, THEN conjunct1] all[THEN conjunct2, THEN conjunct2, THEN conjunct1]
      note r4 = all[THEN conjunct2, THEN conjunct2, THEN conjunct2]
      note dsi = r4[THEN conjunct1]
      note fl = r4[THEN conjunct2, THEN conjunct1]
      note res = r4[THEN conjunct2, THEN conjunct2, THEN conjunct1]
      note non = r4[THEN conjunct2, THEN conjunct2, THEN conjunct2, THEN conjunct1]
      note att = r4[THEN conjunct2, THEN conjunct2, THEN conjunct2, THEN conjunct2, THEN conjunct1]
      note bo = r4[THEN conjunct2, THEN conjunct2, THEN conjunct2, THEN conjunct2, THEN conjunct2]
      have 1: "\<forall>i < Suc n. (d # ds) ! i = snd (attempt_fetch (net (a + i)))"
        using dsi ad by (auto simp: nth_Cons split: nat.splits)
      have 2: "\<forall>i < Suc n - 1. fst (attempt_fetch (net (a + i))) = None"
      proof (intro allI impI)
        fix i assume "i < Suc n - 1"
        show "fst (attempt_fetch (net (a + i))) = None"
        proof (cases i)
          case 0 with ad None show ?thesis by simp
        next
          case (Suc j)
          with \<open>i < Suc n - 1\<close> have "j < n - 1" by simp
          with fl Suc show ?thesis by simp
        qed
      qed
      have 3: "[a ..< a + Suc n - 1] = a # [Suc a ..< Suc a + n - 1]"
        using n(1) by (simp add: upt_conv_Cons)
      show ?thesis
        apply (rule exI[of _ "Suc n"], rule exI[of _ "d # ds"])
        apply (intro conjI)
        subgoal by simp
        subgoal using n by simp
        subgoal using n by simp
        subgoal by (rule 1)
        subgoal by (rule 2)
        subgoal using res n by (simp add: eq)
        subgoal using non by (simp add: eq)
        subgoal using att by (simp add: eq)
        subgoal using bo 3 by (simp add: eq)
        done
    qed
  qed
qed


text \<open>
  C7 (amended). One logical call makes at least one and at most \<open>maxRetries + 1\<close> attempts
  (the first attempt and up to \<open>maxRetries\<close> retries), each attempt lasts at most 8000 ms,
  the wait after the failed attempt number \<open>i\<close> (from 0) is \<open>baseDelay * 2 ^ i\<close> ms, and the
  call fails exactly when all \<open>maxRetries + 1\<close> attempts fail. Polls run with
  \<open>maxRetries = 1\<close> and 300 ms (at most two attempts), answer submissions with
  \<open>maxRetries = 2\<close> and 300 ms (at most three attempts).
\<close>

theorem fetchWithRetry_budget:
  "retryBudget maxRetries baseDelay net \<and>
   length (attemptsOf (snd (pollRequest net))) \<le> 2 \<and>
   length (attemptsOf (snd (submitRequest net))) \<le> 3"
proof -
  have budget: "retryBudget m b nt" for m b and nt :: "nat \<Rightarrow> 'x settle"
  proof -
    have k: "Suc m - 0 = Suc m" "0 < Suc m" by simp_all
    let ?run = "fetchWithRetry_loop m b nt 0 []"
    from loop_char[OF k, of nt b "[]"] obtain n where
      "\<exists>ds. 0 < n \<and> n \<le> Suc m \<and> length ds = n \<and>
       (\<forall>i < n. ds ! i = snd (attempt_fetch (nt (0 + i)))) \<and>
       (\<forall>i < n - 1. fst (attempt_fetch (nt (0 + i))) = None) \<and>
       fst ?run = fst (attempt_fetch (nt (0 + n - 1))) \<and>
       (fst ?run = None \<longrightarrow> n = Suc m) \<and>
       filter isAttempt (snd ?run) = filter isAttempt [] @ map Attempt ds \<and>
       filter isBackoff (snd ?run) =
         filter isBackoff [] @ map (\<lambda>i. Backoff (b * 2 ^ i)) [0 ..< 0 + n - 1]" ..
    then obtain ds where all:
      "0 < n \<and> n \<le> Suc m \<and> length ds = n \<and>
       (\<forall>i < n. ds ! i = snd (attempt_fetch (nt (0 + i)))) \<and>
       (\<forall>i < n - 1. fst (attempt_fetch (nt (0 + i))) = None) \<and>
       fst ?run = fst (attempt_fetch (nt (0 + n - 1))) \<and>
       (fst ?run = None \<longrightarrow> n = Suc m) \<and>
       filter isAttempt (snd ?run) = filter isAttempt [] @ map Attempt ds \<and>
       filter isBackoff (snd ?run) =
         filter isBackoff [] @ map (\<lambda>i. Backoff (b * 2 ^ i)) [0 ..< 0 + n - 1]" ..
    note n = all[THEN conjunct1] all[THEN conjunct2, THEN conjunct1]
      all[THEN conjunct2, THEN conjunct2, THEN conjunct1]
    note r4 = all[THEN conjunct2, THEN conjunct2, THEN conjunct2]
    have dsi: "ds ! i = snd (attempt_fetch (nt i))" if "i < n" for i
      using r4[THEN conjunct1] that by simp
    have fl: "fst (attempt_fetch (nt i)) = None" if "i < n - 1" for i
      using r4[THEN conjunct2, THEN conjunct1] that by simp
    have res: "fst (fetchWithRetry m b nt) = fst (attempt_fetch (nt (n - 1)))"
      using r4[THEN conjunct2, THEN conjunct2, THEN conjunct1]
      by (simp add: fetchWithRetry_def)
    have non: "fst (fetchWithRetry m b nt) = None \<longrightarrow> n = Suc m"
      using r4[THEN conjunct2, THEN conjunct2, THEN conjunct2, THEN conjunct1]
      by (simp add: fetchWithRetry_def)
    have md: "map (duration \<circ> Attempt) xs = xs" for xs by (induction xs) simp_all
    have mb: "map (duration \<circ> (\<lambda>i. Backoff (b * 2 ^ i))) xs = map (\<lambda>i. b * 2 ^ i) xs" for xs
      by (induction xs) simp_all
    have att: "attemptsOf (snd (fetchWithRetry m b nt)) = ds"
      using r4[THEN conjunct2, THEN conjunct2, THEN conjunct2, THEN conjunct2, THEN conjunct1]
      by (simp add: fetchWithRetry_def attemptsOf_def md)
    have bo: "backoffsOf (snd (fetchWithRetry m b nt)) = map (\<lambda>i. b * 2 ^ i) [0 ..< n - 1]"
      using r4[THEN conjunct2, THEN conjunct2, THEN conjunct2, THEN conjunct2, THEN conjunct2]
      by (simp add: fetchWithRetry_def backoffsOf_def mb)
    have dur: "list_all (\<lambda>d. d \<le> 8000) ds"
      unfolding list_all_length
    proof (intro allI impI)
      fix i assume "i < length ds"
      with n dsi[of i] have "ds ! i = snd (attempt_fetch (nt i))" by simp
      with attempt_fetch_bound[of "nt i"] show "ds ! i \<le> 8000"
        by (simp add: attempt_timeout_def)
    qed
    have none_iff: "fst (fetchWithRetry m b nt) = None \<longleftrightarrow>
        list_all (\<lambda>i. fst (attempt_fetch (nt i)) = None) [0 ..< m + 1]"
    proof
      assume a: "fst (fetchWithRetry m b nt) = None"
      with non have nm: "n = Suc m" by simp
      show "list_all (\<lambda>i. fst (attempt_fetch (nt i)) = None) [0 ..< m + 1]"
        unfolding list_all_iff
      proof
        fix i assume "i \<in> set [0 ..< m + 1]"
        then have "i < m \<or> i = m" by auto
        then show "fst (attempt_fetch (nt i)) = None"
        proof
          assume "i < m" with fl[of i] nm show ?thesis by simp
        next
          assume "i = m" with res a nm show ?thesis by simp
        qed
      qed
    next
      assume a: "list_all (\<lambda>i. fst (attempt_fetch (nt i)) = None) [0 ..< m + 1]"
      from n have "n - 1 \<in> set [0 ..< m + 1]" by auto
      with a have "fst (attempt_fetch (nt (n - 1))) = None"
        unfolding list_all_iff by blast
      with res show "fst (fetchWithRetry m b nt) = None" by simp
    qed
    have len: "1 \<le> length ds \<and> length ds \<le> m + 1" using n by simp
    have non': "fst (fetchWithRetry m b nt) = None \<longrightarrow> length ds = m + 1"
      using non n by simp
    have bo': "backoffsOf (snd (fetchWithRetry m b nt)) = map (\<lambda>i. b * 2 ^ i) [0 ..< length ds - 1]"
      using bo n by simp
    show ?thesis
      unfolding retryBudget_def Let_def att
      using len dur bo' none_iff non' by blast
  qed
  from budget[of 1 300 net] have "length (attemptsOf (snd (pollRequest net))) \<le> 2"
    by (simp add: retryBudget_def Let_def pollRequest_def)
  moreover from budget[of 2 300 net] have "length (attemptsOf (snd (submitRequest net))) \<le> 3"
    by (simp add: retryBudget_def Let_def submitRequest_def)
  ultimately show ?thesis using budget[of maxRetries baseDelay net] by simp
qed

lemma poll_dead:
  "pollRequest deadNetwork = (None, [Attempt 8000, Backoff 300, Attempt 8000])"
  by (simp add: pollRequest_def fetchWithRetry_def fetchWithRetry_loop.simps deadNetwork_def
      attempt_timeout_def)

text \<open>
  On a network where nothing settles, a poll makes two attempts of 8000 ms with one
  wait of 300 ms between them, and fails.
\<close>

theorem fetchWithRetry_budget_witness:
  "retryBudget 1 300 deadNetwork \<and>
   attemptsOf (snd (fetchWithRetry 1 300 deadNetwork)) = [8000, 8000] \<and>
   backoffsOf (snd (fetchWithRetry 1 300 deadNetwork)) = [300] \<and>
   fst (fetchWithRetry 1 300 deadNetwork) = None"
  using fetchWithRetry_budget[of 1 300 deadNetwork] poll_dead
  by (simp add: pollRequest_def attemptsOf_def backoffsOf_def)

text \<open>
  C7 as stated (at most \<open>maxRetries\<close> attempts) fails: with \<open>maxRetries = 1\<close> the
  wrapper makes two attempts.
\<close>

theorem fetchWithRetry_attempts_counterexample:
  "\<not> length (attemptsOf (snd (fetchWithRetry 1 300 deadNetwork))) \<le> 1"
  using poll_dead by (simp add: pollRequest_def attemptsOf_def)

subsection \<open>Connection health\<close>

lemma loosely_linked_initial: "loosely_linked initialClient"
  by (simp add: loosely_linked_def initialClient_def intervalFor_def statusFor_def)

lemma linked_initial: "linked initialClient"
  by (simp add: linked_def initialClient_def)

lemma linked_pollFailed: "linked c \<Longrightarrow> linked (pollFailed c)"
  by (auto simp: linked_def pollFailed_def Let_def)

lemma linked_pollSucceeded: "linked c \<Longrightarrow> linked (pollSucceeded dat c)"
  by (auto simp: linked_def pollSucceeded_def Let_def)

lemma linked_fetchQuestion: "linked c \<Longrightarrow> linked (fetchQuestion net c)"
  by (auto simp: fetchQuestion_def linked_pollFailed linked_pollSucceeded split: option.splits)

lemma linked_goOnline: "linked (goOnline c)"
  by (simp add: linked_def goOnline_def)

lemma loose_pollFailed: "loosely_linked c \<Longrightarrow> loosely_linked (pollFailed c)"
  by (auto simp: loosely_linked_def pollFailed_def Let_def intervalFor_def statusFor_def split: if_splits)

lemma loose_pollSucceeded: "loosely_linked c \<Longrightarrow> loosely_linked (pollSucceeded dat c)"
  by (auto simp: loosely_linked_def pollSucceeded_def Let_def intervalFor_def statusFor_def split: if_splits)

lemma loose_fetchQuestion: "loosely_linked c \<Longrightarrow> loosely_linked (fetchQuestion net c)"
  by (auto simp: fetchQuestion_def loose_pollFailed loose_pollSucceeded split: option.splits)

lemma loose_goOnline: "loosely_linked (goOnline c)"
  by (simp add: loosely_linked_def goOnline_def intervalFor_def statusFor_def)

lemma loose_goOffline: "loosely_linked c \<Longrightarrow> loosely_linked (goOffline c)"
  by (simp add: loosely_linked_def goOffline_def)

lemma loose_clientStep: "loosely_linked c \<Longrightarrow> loosely_linked (clientStep e c)"
  by (cases e) (simp_all add: loose_fetchQuestion loose_goOnline loose_goOffline)

lemma loose_clientRun: "loosely_linked c \<Longrightarrow> loosely_linked (clientRun evs c)"
  unfolding clientRun_def
  by (induction evs arbitrary: c) (simp_all add: loose_clientStep)

lemma linked_clientStep: "linked c \<Longrightarrow> \<not> isOfflineEvent e \<Longrightarrow> linked (clientStep e c)"
  by (cases e) (simp_all add: linked_fetchQuestion linked_goOnline)

lemma linked_clientRun:
  "linked c \<Longrightarrow> \<forall>e \<in> set evs. \<not> isOfflineEvent e \<Longrightarrow> linked (clientRun evs c)"
  unfolding clientRun_def
  by (induction evs arbitrary: c) (simp_all add: linked_clientStep)

lemma fetchQuestion_ok_reset:
  "pollOk net \<Longrightarrow> 0 < consecutiveFailures c \<Longrightarrow>
   consecutiveFailures (fetchQuestion net c) = 0 \<and>
   connectionStatus (fetchQuestion net c) = Connected \<and>
   pollIntervalRef (fetchQuestion net c) = 1500"
  by (auto simp: pollOk_def fetchQuestion_def pollSucceeded_def Let_def split: option.splits)

lemma fetchQuestion_ok_zero:
  "pollOk net \<Longrightarrow> consecutiveFailures c = 0 \<Longrightarrow>
   consecutiveFailures (fetchQuestion net c) = 0 \<and>
   connectionStatus (fetchQuestion net c) = connectionStatus c \<and>
   pollIntervalRef (fetchQuestion net c) = pollIntervalRef c"
  by (auto simp: pollOk_def fetchQuestion_def pollSucceeded_def Let_def split: option.splits)


lemma poll_good:
  "fetchWithRetry (Suc 0) 300 goodNetwork = (Some \<lparr>ok = True, json = Some sampleData\<rparr>, [Attempt 20])"
  by (simp add: fetchWithRetry_def fetchWithRetry_loop.simps goodNetwork_def attempt_timeout_def)

lemma poll_dead_data:
  "fetchWithRetry (Suc 0) 300 deadNetwork =
     (None, [Attempt 8000, Backoff 300, Attempt 8000])"
  by (simp add: fetchWithRetry_def fetchWithRetry_loop.simps deadNetwork_def attempt_timeout_def)

lemma pollOk_good: "pollOk goodNetwork"
  using poll_good by (simp add: pollOk_def)

text \<open>
  C6 (amended). At every reschedule the poll interval follows the failure counter
  (below 2: 1500 ms, from 2 to 4: 4000 ms, 5 and more: 10000 ms) and the status is the one
  of the counter (connected, reconnecting, offline) or, after a browser offline event,
  offline; when no browser offline event has occurred the linkage holds as specified.
  A successful poll with a positive counter resets counter, status and interval; with
  counter 0 it leaves all three as they are. The browser offline event sets the status to
  offline and leaves counter and interval alone.
\<close>

theorem client_health_linkage:
  "loosely_linked (clientRun evs initialClient) \<and>
   (list_all (\<lambda>e. \<not> isOfflineEvent e) evs \<longrightarrow> linked (clientRun evs initialClient)) \<and>
   (pollOk net \<and> 0 < consecutiveFailures c \<longrightarrow>
      consecutiveFailures (fetchQuestion net c) = 0 \<and>
      connectionStatus (fetchQuestion net c) = Connected \<and>
      pollIntervalRef (fetchQuestion net c) = 1500) \<and>
   (pollOk net \<and> consecutiveFailures c = 0 \<longrightarrow>
      consecutiveFailures (fetchQuestion net c) = 0 \<and>
      connectionStatus (fetchQuestion net c) = connectionStatus c \<and>
      pollIntervalRef (fetchQuestion net c) = pollIntervalRef c) \<and>
   connectionStatus (goOffline c) = Offline \<and>
   consecutiveFailures (goOffline c) = consecutiveFailures c \<and>
   pollIntervalRef (goOffline c) = pollIntervalRef c"
proof -
  have 1: "loosely_linked (clientRun evs initialClient)"
    by (rule loose_clientRun[OF loosely_linked_initial])
  have 2: "list_all (\<lambda>e. \<not> isOfflineEvent e) evs \<longrightarrow> linked (clientRun evs initialClient)"
    using linked_clientRun[OF linked_initial, of evs] by (simp add: list_all_iff)
  have 3: "connectionStatus (goOffline c) = Offline \<and>
     consecutiveFailures (goOffline c) = consecutiveFailures c \<and>
     pollIntervalRef (goOffline c) = pollIntervalRef c"
    by (simp add: goOffline_def)
  from 1 2 3 fetchQuestion_ok_reset[of net c] fetchQuestion_ok_zero[of net c]
  show ?thesis by blast
qed

text \<open>
  Five failed polls in a row leave the client offline at 10000 ms; one successful poll
  after them brings it back to connected at 1500 ms with the counter at 0.
\<close>

theorem client_health_linkage_witness:
  "list_all (\<lambda>e. \<not> isOfflineEvent e)
     [Poll deadNetwork, Poll deadNetwork, Poll deadNetwork, Poll deadNetwork, Poll deadNetwork] \<and>
   linked (clientRun
     [Poll deadNetwork, Poll deadNetwork, Poll deadNetwork, Poll deadNetwork, Poll deadNetwork]
     initialClient) \<and>
   connectionStatus (clientRun
     [Poll deadNetwork, Poll deadNetwork, Poll deadNetwork, Poll deadNetwork, Poll deadNetwork]
     initialClient) = Offline \<and>
   pollIntervalRef (clientRun
     [Poll deadNetwork, Poll deadNetwork, Poll deadNetwork, Poll deadNetwork, Poll deadNetwork]
     initialClient) = 10000 \<and>
   pollOk goodNetwork \<and>
   0 < consecutiveFailures (clientRun
     [Poll deadNetwork, Poll deadNetwork, Poll deadNetwork, Poll deadNetwork, Poll deadNetwork]
     initialClient) \<and>
   connectionStatus (fetchQuestion goodNetwork (clientRun
     [Poll deadNetwork, Poll deadNetwork, Poll deadNetwork, Poll deadNetwork, Poll deadNetwork]
     initialClient)) = Connected \<and>
   pollIntervalRef (fetchQuestion goodNetwork (clientRun
     [Poll deadNetwork, Poll deadNetwork, Poll deadNetwork, Poll deadNetwork, Poll deadNetwork]
     initialClient)) = 1500"
proof -
  let ?evs = "[Poll deadNetwork, Poll deadNetwork, Poll deadNetwork, Poll deadNetwork, Poll deadNetwork]"
  let ?c = "clientRun ?evs initialClient"
  have run: "consecutiveFailures ?c = 5 \<and> connectionStatus ?c = Offline \<and> pollIntervalRef ?c = 10000"
    using poll_dead_data
    by (simp add: clientRun_def initialClient_def fetchQuestion_def pollFailed_def Let_def)
  have no: "list_all (\<lambda>e. \<not> isOfflineEvent e) ?evs" by simp
  from client_health_linkage[of ?evs goodNetwork ?c] no run pollOk_good
  show ?thesis by simp
qed

text \<open>
  C6 as stated fails once the browser reports offline: the counter is 0 and the status is
  offline, and a successful poll leaves the status offline.
\<close>

theorem client_health_linkage_counterexample:
  "\<not> linked (clientRun [BrowserOffline] initialClient) \<and>
   pollOk goodNetwork \<and>
   connectionStatus (clientRun [BrowserOffline, Poll goodNetwork] initialClient) = Offline"
  using poll_good pollOk_good
  by (simp add: clientRun_def goOffline_def linked_def initialClient_def fetchQuestion_def
      pollSucceeded_def Let_def)

section \<open>Proofs: question generator\<close>

lemma digit_roundtrip: "d < 10 \<Longrightarrow> digitValue (digitChar d) = Some d"
  by (simp add: digitValue_def digitChar_def)

lemma digit_not_space: "digitChar d \<noteq> 0x20"
  by (simp add: digitChar_def)

lemma parseDigits_append:
  "parseDigits acc (xs @ ys) = (case parseDigits acc xs of None \<Rightarrow> None | Some v \<Rightarrow> parseDigits v ys)"
  by (induction xs arbitrary: acc) (auto split: option.splits)

lemma parseDigits_showNat: "parseDigits acc (showNat n) = Some (acc * 10 ^ length (showNat n) + n)"
proof (induction n arbitrary: acc rule: showNat.induct)
  case (1 n)
  show ?case
  proof (cases "n < 10")
    case True
    then show ?thesis by (subst (1 2) showNat.simps) (simp add: digit_roundtrip)
  next
    case False
    have m: "n mod 10 < 10" by simp
    have "parseDigits acc (showNat n) =
          (case parseDigits acc (showNat (n div 10)) of None \<Rightarrow> None
           | Some v \<Rightarrow> parseDigits v [digitChar (n mod 10)])"
      using False by (subst showNat.simps) (simp add: parseDigits_append)
    also have "\<dots> = Some ((acc * 10 ^ length (showNat (n div 10)) + n div 10) * 10 + n mod 10)"
      using "1.IH"[OF False, of acc] m by (simp add: digit_roundtrip mult.commute)
    also have "\<dots> = Some (acc * 10 ^ length (showNat n) + n)"
      using False by (subst (2) showNat.simps) (simp add: algebra_simps)
    finally show ?thesis .
  qed
qed

lemma showNat_nonempty: "showNat n \<noteq> []"
  by (subst showNat.simps) simp

lemma parseNat_showNat: "parseNat (showNat n) = Some n"
  using parseDigits_showNat[of 0 n] by (simp add: parseNat_def showNat_nonempty)

lemma showNat_no_space: "0x20 \<notin> set (showNat n)"
proof (induction n rule: showNat.induct)
  case (1 n)
  show ?case
  proof (cases "n < 10")
    case True
    then show ?thesis using digit_not_space[of n] by (subst showNat.simps) simp
  next
    case False
    then show ?thesis using "1.IH" digit_not_space[of "n mod 10"]
      by (subst showNat.simps) simp
  qed
qed

lemma splitSpaces_nonempty: "splitSpaces s \<noteq> []"
  by (induction s) (auto split: list.splits)

lemma splitSpaces_word:
  "0x20 \<notin> set w \<Longrightarrow> splitSpaces (w @ 0x20 # rest) = w # splitSpaces rest"
  by (induction w) auto

lemma splitSpaces_last: "0x20 \<notin> set w \<Longrightarrow> splitSpaces w = [w]"
  by (induction w) auto

lemma opSymbol_no_space: "0x20 \<notin> set (opSymbol op)"
  by (cases op) auto

lemma parseOperator_opSymbol: "parseOperator (opSymbol op) = Some op"
  by (cases op) (auto simp: parseOperator_def)

lemma parseText_formatText:
  "0 \<le> a \<Longrightarrow> 0 \<le> b \<Longrightarrow> parseText (formatText a op b) = Some (nat a, op, nat b)"
proof -
  assume ab: "0 \<le> a" "0 \<le> b"
  have "formatText a op b = showNat (nat a) @ 0x20 # (opSymbol op @ 0x20 # showNat (nat b))"
    using ab by (simp add: formatText_def showInt_def)
  then have "splitSpaces (formatText a op b) = [showNat (nat a), opSymbol op, showNat (nat b)]"
    by (simp add: splitSpaces_word splitSpaces_last showNat_no_space opSymbol_no_space)
  then show ?thesis
    by (simp add: parseText_def parseNat_showNat parseOperator_opSymbol)
qed


subsection \<open>Rounding of the double product\<close>

lemma bitLength_lower: "0 < n \<Longrightarrow> 2 ^ (bitLength n - 1) \<le> n"
proof (induction n rule: bitLength.induct)
  case (1 n)
  from "1.prems" have bl: "bitLength n = Suc (bitLength (n div 2))"
    by (subst bitLength.simps) simp
  show ?case
  proof (cases "n div 2 = 0")
    case True
    then have "bitLength (n div 2) = 0" by (simp add: bitLength.simps)
    with bl "1.prems" show ?thesis by simp
  next
    case False
    then have pos: "0 < n div 2" by simp
    from pos have "bitLength (n div 2) = Suc (bitLength (n div 2 div 2))"
      by (subst bitLength.simps) simp
    then have "2 ^ bitLength (n div 2) = 2 * 2 ^ (bitLength (n div 2) - 1)" by simp
    also have "\<dots> \<le> 2 * (n div 2)" using "1.IH" "1.prems" pos by simp
    also have "\<dots> \<le> n" by simp
    finally show ?thesis using bl by simp
  qed
qed

lemma roundHalfEven_upper: "2 * (roundHalfEven m s * 2 ^ s) \<le> 2 * m + 2 ^ s"
proof -
  have m: "m div 2 ^ s * 2 ^ s + m mod 2 ^ s = m" by (rule div_mult_mod_eq)
  show ?thesis
  proof (cases "2 ^ s < 2 * (m mod 2 ^ s) \<or> (2 * (m mod 2 ^ s) = 2 ^ s \<and> odd (m div 2 ^ s))")
    case True
    then have up: "roundHalfEven m s = m div 2 ^ s + 1" by (simp add: roundHalfEven_def Let_def)
    from True have r: "(2::nat) ^ s \<le> 2 * (m mod 2 ^ s)" by auto
    have "2 * (roundHalfEven m s * 2 ^ s) = 2 * (m div 2 ^ s * 2 ^ s) + 2 ^ s + 2 ^ s"
      by (simp add: up algebra_simps)
    also have "\<dots> \<le> 2 * (m div 2 ^ s * 2 ^ s) + 2 * (m mod 2 ^ s) + 2 ^ s" using r by simp
    also have "\<dots> = 2 * (m div 2 ^ s * 2 ^ s + m mod 2 ^ s) + 2 ^ s" by simp
    also have "\<dots> = 2 * m + 2 ^ s" by (simp only: m)
    finally show ?thesis .
  next
    case False
    then have dn: "roundHalfEven m s = m div 2 ^ s" by (simp add: roundHalfEven_def Let_def)
    have "m div 2 ^ s * 2 ^ s \<le> m" by simp
    then have "2 * (m div 2 ^ s * 2 ^ s) \<le> 2 * m + 2 ^ s" by linarith
    then show ?thesis by (simp only: dn)
  qed
qed

lemma roundHalfEven_zero: "roundHalfEven m 0 = m"
  by (simp add: roundHalfEven_def)

text \<open>
  The rounded product of a draw below 1 and a positive integer \<open>n\<close> stays below \<open>n\<close>: the
  rounding error is at most half a unit in the last place, which is less than the
  distance \<open>n * (1 - r)\<close> of the exact product from \<open>n\<close>.
\<close>

lemma roundTo53_below:
  assumes "unitDraw r" "0 < n"
  shows "roundTo53 (mantissa r * n) < n * 2 ^ scale r"
proof -
  let ?m = "mantissa r" and ?k = "scale r"
  let ?M = "?m * n"
  let ?s = "bitLength ?M - 53"
  from assms have m53: "?m < 2 ^ 53" and mk: "Suc ?m \<le> 2 ^ ?k" by (simp_all add: unitDraw_def)
  from mk have "Suc ?m * n \<le> 2 ^ ?k * n" by (rule mult_le_mono1)
  then have exact: "?M + n \<le> n * 2 ^ ?k" by (simp add: algebra_simps)
  show ?thesis
  proof (cases "bitLength ?M \<le> 53")
    case True
    then have eq: "roundTo53 ?M = ?M" by (simp add: roundTo53_def roundHalfEven_zero)
    from exact assms(2) have "?M < n * 2 ^ ?k" by linarith
    then show ?thesis by (simp only: eq)
  next
    case False
    then have bl: "bitLength ?M = 53 + ?s" by simp
    have pos: "0 < ?M"
    proof (rule ccontr)
      assume "\<not> 0 < ?M"
      then have "bitLength ?M = 0" by (simp add: bitLength.simps)
      with False show False by simp
    qed
    from bitLength_lower[OF pos] bl have "2 ^ (52 + ?s) \<le> ?M" by simp
    also have "?M < 2 ^ 53 * n" using m53 assms(2) by simp
    finally have "(2::nat) ^ 52 * 2 ^ ?s < 2 ^ 52 * (2 * n)" by (simp add: power_add)
    then have half: "2 ^ ?s < 2 * n" by simp
    have "2 * roundTo53 ?M \<le> 2 * ?M + 2 ^ ?s"
      using roundHalfEven_upper[of ?M ?s] by (simp add: roundTo53_def Let_def)
    also have "\<dots> < 2 * ?M + 2 * n" using half by simp
    also have "\<dots> \<le> 2 * (n * 2 ^ ?k)" using exact by simp
    finally show ?thesis by simp
  qed
qed

lemma floorTimes_range:
  assumes "unitDraw r" "0 < n"
  shows "0 \<le> floorTimes r n \<and> floorTimes r n < n"
proof -
  let ?x = "roundTo53 (mantissa r * nat n)"
  from assms(2) have n: "0 < nat n" "int (nat n) = n" by simp_all
  from assms(2) have ft: "floorTimes r n = int (?x div 2 ^ scale r)"
    by (simp add: floorTimes_def timesInt_def zdiv_int)
  have "?x < nat n * 2 ^ scale r" by (rule roundTo53_below[OF assms(1) n(1)])
  then have "?x div 2 ^ scale r < nat n" by (simp add: less_mult_imp_div_less)
  then have "int (?x div 2 ^ scale r) < n" using n(2) by linarith
  with ft show ?thesis by simp
qed

lemma randInt_range:
  assumes "unitDraw r" "lo \<le> hi"
  shows "lo \<le> randInt lo hi r \<and> randInt lo hi r \<le> hi"
proof -
  from assms(2) have "0 < hi - lo + 1" by simp
  from floorTimes_range[OF assms(1) this] show ?thesis by (simp add: randInt_def)
qed

text \<open>
  The product is rounded: with the double nearest to 0.6 as the draw, the exact product
  with 90 is below 54 and the double product is 54.
\<close>

lemma randInt_rounds:
  "randInt 10 99 \<lparr>mantissa = 5404319552844595, scale = 53\<rparr> = 64 \<and>
   int (5404319552844595 * 90 div 2 ^ 53) + 10 = 63"
  by (simp add: randInt_def floorTimes_def timesInt_def roundTo53_def roundHalfEven_def
      bitLength.simps Let_def)

lemma pickOperator_total:
  assumes "unitDraw r"
  shows "\<exists>op. pickOperator r = Some op"
proof -
  from floorTimes_range[OF assms, of 4] show ?thesis
    by (simp add: pickOperator_def operators_def)
qed

lemma evalText_formatText:
  "0 \<le> a \<Longrightarrow> 0 \<le> b \<Longrightarrow>
   evalText (formatText a op b) = applyOperator op (of_int a) (of_int b)"
  by (simp add: evalText_def parseText_formatText)

lemma wf_plus:
  assumes "10 \<le> a" "a \<le> 99" "10 \<le> b" "b \<le> 99"
  shows "wellFormedQuestion \<lparr>genText = formatText a Plus b, genAnswer = a + b\<rparr>"
  using assms by (simp add: wellFormedQuestion_def parseText_formatText evalText_formatText) arith

lemma wf_minus:
  assumes "20 \<le> a" "a \<le> 99" "1 \<le> b" "b \<le> a"
  shows "wellFormedQuestion \<lparr>genText = formatText a Minus b, genAnswer = a - b\<rparr>"
  using assms by (simp add: wellFormedQuestion_def parseText_formatText evalText_formatText) arith

lemma wf_times:
  assumes "2 \<le> a" "a \<le> 12" "2 \<le> b" "b \<le> 12"
  shows "wellFormedQuestion \<lparr>genText = formatText a Times b, genAnswer = a * b\<rparr>"
  using assms by (simp add: wellFormedQuestion_def parseText_formatText evalText_formatText) arith

lemma wf_divide:
  assumes "2 \<le> b" "b \<le> 12" "2 \<le> c" "c \<le> 12"
  shows "wellFormedQuestion \<lparr>genText = formatText (b * c) Divide b, genAnswer = c\<rparr>"
proof -
  from assms have nn: "0 \<le> b * c" "0 \<le> b" by simp_all
  have d: "nat (b * c) div nat b = nat c"
    using assms by (simp add: nat_mult_distrib)
  have dv: "nat b dvd nat (b * c)"
    using assms by (simp add: nat_mult_distrib)
  have rg: "2 \<le> nat b \<and> nat b \<le> 12 \<and> 2 \<le> nat c \<and> nat c \<le> 12"
    using assms by arith
  show ?thesis
    using assms nn d dv rg
    by (simp add: wellFormedQuestion_def parseText_formatText evalText_formatText)
qed

lemma generateQuestion_total:
  assumes "unitDraw r0" "unitDraw r1" "unitDraw r2"
  shows "\<exists>q. generateQuestion r0 r1 r2 = Some q \<and> wellFormedQuestion q"
proof -
  from pickOperator_total[OF assms(1)] obtain op where op: "pickOperator r0 = Some op" ..
  show ?thesis
  proof (cases op)
    case Plus
    with op show ?thesis
      using randInt_range[OF assms(2), of 10 99] randInt_range[OF assms(3), of 10 99]
      by (simp add: generateQuestion_def Let_def wf_plus)
  next
    case Minus
    have a: "20 \<le> randInt 20 99 r1 \<and> randInt 20 99 r1 \<le> 99"
      using randInt_range[OF assms(2), of 20 99] by simp
    then have "1 \<le> randInt 20 99 r1" by simp
    from randInt_range[OF assms(3) this] a Minus op show ?thesis
      by (simp add: generateQuestion_def Let_def wf_minus)
  next
    case Times
    with op show ?thesis
      using randInt_range[OF assms(2), of 2 12] randInt_range[OF assms(3), of 2 12]
      by (simp add: generateQuestion_def Let_def wf_times)
  next
    case Divide
    with op show ?thesis
      using randInt_range[OF assms(2), of 2 12] randInt_range[OF assms(3), of 2 12]
      by (simp add: generateQuestion_def Let_def wf_divide)
  qed
qed

text \<open>
  C10. For all doubles in \<open>[0, 1)\<close> as draws the generator returns a question whose text reads back
  as \<open>a op b\<close> with the operands in the ranges of the operator (addition 10 to 99,
  subtraction \<open>a\<close> in 20 to 99 and \<open>b\<close> in 1 to \<open>a\<close>, multiplication 2 to 12, division with
  \<open>b\<close> in 2 to 12 dividing \<open>a\<close> and quotient in 2 to 12), whose stored answer is the exact
  value of the text, and whose answer is not negative.
\<close>

theorem generateQuestion_wellFormed:
  assumes "unitDraw r0" "unitDraw r1" "unitDraw r2"
  shows "\<exists>q. generateQuestion r0 r1 r2 = Some q \<and> wellFormedQuestion q"
  using assms by (rule generateQuestion_total)

lemma generateQuestion_zero:
  "generateQuestion zeroDraw zeroDraw zeroDraw =
     Some \<lparr>genText = ascii ''10 + 10'', genAnswer = 20\<rparr>"
  by (simp add: zeroDraw_def generateQuestion_def pickOperator_def operators_def randInt_def floorTimes_def
      timesInt_def roundTo53_def roundHalfEven_def bitLength.simps formatText_def
      showInt_def showNat.simps digitChar_def ascii_def)

text \<open>
  With the draws 3/4, 1/2 and the double nearest to 9/10 the generator asks for 77 divided
  by 7 and stores 11.
\<close>

lemma generateQuestion_sample:
  "generateQuestion \<lparr>mantissa = 3, scale = 2\<rparr> \<lparr>mantissa = 1, scale = 1\<rparr>
     \<lparr>mantissa = 8106479329266893, scale = 53\<rparr> =
     Some \<lparr>genText = ascii ''77 '' @ [0xF7] @ ascii '' 7'', genAnswer = 11\<rparr>"
  by (simp add: generateQuestion_def pickOperator_def operators_def randInt_def floorTimes_def
      timesInt_def roundTo53_def roundHalfEven_def bitLength.simps Let_def formatText_def
      showInt_def showNat.simps digitChar_def ascii_def)

theorem generateQuestion_wellFormed_witness:
  "unitDraw \<lparr>mantissa = 3, scale = 2\<rparr> \<and> unitDraw \<lparr>mantissa = 1, scale = 1\<rparr> \<and>
   unitDraw \<lparr>mantissa = 8106479329266893, scale = 53\<rparr> \<and>
   generateQuestion \<lparr>mantissa = 3, scale = 2\<rparr> \<lparr>mantissa = 1, scale = 1\<rparr>
     \<lparr>mantissa = 8106479329266893, scale = 53\<rparr> =
     Some \<lparr>genText = ascii ''77 '' @ [0xF7] @ ascii '' 7'', genAnswer = 11\<rparr> \<and>
   wellFormedQuestion \<lparr>genText = ascii ''77 '' @ [0xF7] @ ascii '' 7'', genAnswer = 11\<rparr>"
proof -
  have d: "unitDraw \<lparr>mantissa = 3, scale = 2\<rparr>" "unitDraw \<lparr>mantissa = 1, scale = 1\<rparr>"
    "unitDraw \<lparr>mantissa = 8106479329266893, scale = 53\<rparr>"
    by (simp_all add: unitDraw_def)
  from generateQuestion_wellFormed[OF d] generateQuestion_sample d show ?thesis by simp
qed

section \<open>Proofs: storage and handlers\<close>

subsection \<open>Storage operations\<close>

lemma findById_updateById:
  "findById i (updateById j f c) = (if i = j then map_option f (findById i c) else findById i c)"
  by (induction c) (auto simp: findById_def updateById_def)

lemma fold_max_ge: "a \<le> fold max xs (a::nat)"
  by (induction xs arbitrary: a) (auto intro: order_trans[OF max.cobounded2])

lemma fold_max_mem: "x \<in> set xs \<Longrightarrow> x \<le> fold max xs (a::nat)"
proof (induction xs arbitrary: a)
  case Nil then show ?case by simp
next
  case (Cons y ys)
  show ?case
  proof (cases "x = y")
    case True
    have "y \<le> max y a" by simp
    also have "\<dots> \<le> fold max ys (max y a)" by (rule fold_max_ge)
    finally show ?thesis using True by simp
  next
    case False
    with Cons.prems have "x \<in> set ys" by simp
    from Cons.IH[OF this] show ?thesis by simp
  qed
qed

lemma freshId_new: "findById (freshId c) c = None"
proof -
  have "freshId c \<notin> fst ` set c"
  proof
    assume "freshId c \<in> fst ` set c"
    then have "freshId c \<in> set (map fst c)" by simp
    from fold_max_mem[OF this, of 0] show False by (simp add: freshId_def)
  qed
  then show ?thesis by (simp add: findById_def map_of_eq_None_iff)
qed

lemma findById_insertDoc:
  "findById i (snd (insertDoc doc c)) = (if i = freshId c then Some doc else findById i c)"
  using freshId_new[of c]
  by (auto simp: insertDoc_def findById_def map_add_def split: option.splits)

lemma findById_Some_insertDoc:
  "findById i c = Some x \<Longrightarrow> findById i (snd (insertDoc doc c)) = Some x"
  using freshId_new[of c] by (auto simp: findById_insertDoc)

lemma find_mem_fst:
  "find P c = Some x \<Longrightarrow> x \<in> set c \<and> P x"
  by (induction c) (auto split: if_splits)

lemma distinct_findById:
  "distinct (map fst c) \<Longrightarrow> (i, x) \<in> set c \<Longrightarrow> findById i c = Some x"
  by (simp add: findById_def)

lemma findByUsername_findById:
  "distinct (map fst (players d)) \<Longrightarrow> findByUsername u d = Some (pid, p) \<Longrightarrow>
   findById pid (players d) = Some p \<and> username p = u"
  using find_mem_fst[of "\<lambda>(i, p). username p = u" "players d" "(pid, p)"]
  by (auto simp: findByUsername_def distinct_findById)

lemma fold_latest_mem:
  "fold (\<lambda>y best. if createdAt (snd best) < createdAt (snd y) then y else best) xs x \<in> set (x # xs)"
  by (induction xs arbitrary: x) auto

lemma findOneActive_mem:
  "findOneActive d = Some (qid, q) \<Longrightarrow> (qid, q) \<in> set (questions d) \<and> isActive q"
proof -
  assume a: "findOneActive d = Some (qid, q)"
  let ?act = "filter (\<lambda>(i, q). isActive q) (questions d)"
  from a obtain x xs where xs: "?act = x # xs"
    by (cases ?act) (auto simp: findOneActive_def)
  with a have "(qid, q) = fold (\<lambda>y best. if createdAt (snd best) < createdAt (snd y) then y else best) xs x"
    by (simp add: findOneActive_def)
  with fold_latest_mem[of xs x] xs have "(qid, q) \<in> set ?act" by simp
  then show ?thesis by auto
qed

lemma findOneActive_findById:
  "distinct (map fst (questions d)) \<Longrightarrow> findOneActive d = Some (qid, q) \<Longrightarrow>
   findById qid (questions d) = Some q \<and> isActive q"
  using findOneActive_mem[of d qid q] by (auto simp: distinct_findById)

subsection \<open>Join\<close>

lemma trim_sample: "trim (ascii '' al '') = ascii ''al''"
  by (simp add: trim_def isSpace_def whiteSpace_def ascii_def)

lemma join_POST_reset_rejoin:
  assumes "distinctIds d" "trim u \<noteq> []"
  shows "rejoinSemantics join_POST_reset u d"
proof (cases "findByUsername (take 20 (trim u)) d")
  case None
  then have ins: "createPlayer \<lparr>username = take 20 (trim u), score = 0, highScore = 0\<rparr> d =
      Some ((freshId (players d), \<lparr>username = take 20 (trim u), score = 0, highScore = 0\<rparr>),
            d\<lparr>players := players d @ [(freshId (players d),
                 \<lparr>username = take 20 (trim u), score = 0, highScore = 0\<rparr>)]\<rparr>)"
    by (simp add: createPlayer_def insertDoc_def)
  from None have nf: "find (\<lambda>(i, p). username p = take 20 (trim u)) (players d) = None"
    by (simp add: findByUsername_def)
  have "find P (xs @ [x]) = (case find P xs of None \<Rightarrow> (if P x then Some x else None) | Some y \<Rightarrow> Some y)"
    for P and xs :: "(oid \<times> IPlayer) list" and x
    by (induction xs) auto
  with nf have "findByUsername (take 20 (trim u))
      (d\<lparr>players := players d @ [(freshId (players d),
                 \<lparr>username = take 20 (trim u), score = 0, highScore = 0\<rparr>)]\<rparr>) =
      Some (freshId (players d), \<lparr>username = take 20 (trim u), score = 0, highScore = 0\<rparr>)"
    by (simp add: findByUsername_def)
  with None ins assms(2) show ?thesis
    by (simp add: rejoinSemantics_def join_POST_reset_def Let_def)
next
  case (Some a)
  obtain pid p where a: "a = (pid, p)" by (cases a)
  from assms(1) Some a have "findById pid (players d) = Some p"
    using findByUsername_findById[of d "take 20 (trim u)" pid p] by (simp add: distinctIds_def)
  then have "findById pid (players (resetScore pid d)) = Some (p\<lparr>score := 0\<rparr>)"
    by (simp add: resetScore_def findById_updateById)
  with Some a assms(2) show ?thesis
    by (simp add: rejoinSemantics_def join_POST_reset_def Let_def)
qed

lemma join_POST_new_player:
  assumes "trim u \<noteq> []" "findByUsername (take 20 (trim u)) d = None"
  shows "rejoinSemantics join_POST u d \<and> rejoinSemantics join_POST_reset u d"
proof -
  let ?p = "\<lparr>username = take 20 (trim u), score = 0, highScore = 0\<rparr>"
  let ?d1 = "d\<lparr>players := players d @ [(freshId (players d), ?p)]\<rparr>"
  from assms(2) have ins: "createPlayer ?p d = Some ((freshId (players d), ?p), ?d1)"
    by (simp add: createPlayer_def insertDoc_def)
  from assms(2) have nf: "find (\<lambda>(i, p). username p = take 20 (trim u)) (players d) = None"
    by (simp add: findByUsername_def)
  have "find P (xs @ [x]) = (case find P xs of None \<Rightarrow> (if P x then Some x else None) | Some y \<Rightarrow> Some y)"
    for P and xs :: "(oid \<times> IPlayer) list" and x
    by (induction xs) auto
  with nf have "findByUsername (take 20 (trim u)) ?d1 = Some (freshId (players d), ?p)"
    by (simp add: findByUsername_def)
  with assms ins show ?thesis
    by (simp add: rejoinSemantics_def join_POST_def join_POST_reset_def Let_def)
qed

text \<open>
  C2. A join with the name of an existing player should reset that player's score to 0
  and keep the high score. The implementation in src/app/api/join/route.ts does not: for
  the sample store and the body \<open>" al "\<close> it returns player 1 with the score 5 and leaves
  the store as it was, while the second implementation (unnamed/part_001) resets the score
  (lemma \<open>join_POST_reset_rejoin\<close>).
\<close>

theorem join_POST_keeps_score:
  "join_POST (Some (Name (ascii '' al ''))) sampleStore = (Joined 1 (ascii ''al'') 5 None, sampleStore) \<and>
   \<not> rejoinSemantics join_POST (ascii '' al '') sampleStore \<and>
   rejoinSemantics join_POST_reset (ascii '' al '') sampleStore"
proof -
  have 1: "join_POST (Some (Name (ascii '' al ''))) sampleStore = (Joined 1 (ascii ''al'') 5 None, sampleStore)"
    by (simp add: join_POST_def trim_def isSpace_def whiteSpace_def ascii_def findByUsername_def
        sampleStore_def Let_def)
  have f: "findByUsername (take 20 (trim (ascii '' al ''))) sampleStore =
      Some (1, \<lparr>username = ascii ''al'', score = 5, highScore = 7\<rparr>)"
    by (simp add: trim_def isSpace_def whiteSpace_def ascii_def findByUsername_def
        sampleStore_def)
  have 2: "\<not> rejoinSemantics join_POST (ascii '' al '') sampleStore"
    unfolding rejoinSemantics_def f 1 by (simp add: sampleStore_def findById_def)
  have 3: "rejoinSemantics join_POST_reset (ascii '' al '') sampleStore"
    by (rule join_POST_reset_rejoin)
       (simp_all add: distinctIds_def sampleStore_def trim_def isSpace_def whiteSpace_def
          ascii_def)
  from 1 2 3 show ?thesis by simp
qed

subsection \<open>GET /api/question\<close>

text \<open>
  C3 (amended). When the newest active question has a winner, \<open>GET /api/question\<close> returns
  that question with its winner and changes nothing in the store, whatever the time and
  however many inspections follow one another: it neither retires the question nor
  creates a successor.
\<close>

theorem won_question_stays_active:
  assumes "findOneActive d = Some (qid, q)" "winnerId q \<noteq> None"
  shows "question_GET now draws d = (Snapshot (snapshot qid q now d), d) \<and>
         fold (\<lambda>call d. snd (question_GET (fst call) (snd call) d)) calls d = d"
proof -
  have one: "question_GET t r d = (Snapshot (snapshot qid q t d), d)" for t r
    using assms by (cases "winnerId q") (simp_all add: question_GET_def)
  have "fold (\<lambda>call d. snd (question_GET (fst call) (snd call) d)) calls d = d"
    by (induction calls) (simp_all add: one)
  with one[of now draws] show ?thesis by simp
qed

lemma findOneActive_wonStore:
  "findOneActive wonStore =
     Some (1, \<lparr>qtext = ascii ''7 + 8'', answer = 15, isActive = True, winnerId = Some 1,
               winnerName = Some (ascii ''al''), createdAt = 0\<rparr>)"
  by (simp add: findOneActive_def wonStore_def)

lemma question_GET_wonStore:
  "question_GET 1000000 sampleDraws wonStore =
     (Snapshot \<lparr>questionId = 1, dataText = ascii ''7 + 8'', dataWinnerId = Some 1,
                dataWinnerName = Some (ascii ''al''), remainingMs = 0,
                leaderboard = [(1, ascii ''al'', 6)]\<rparr>, wonStore)"
  by (simp add: question_GET_def findOneActive_wonStore snapshot_def QUESTION_TIMEOUT_MS_def
      topPlayers_def)
     (simp add: wonStore_def)

text \<open>
  A question won at time 0 whose timer never ran is returned unchanged a thousand seconds
  later.
\<close>

theorem won_question_stays_active_witness:
  "findOneActive wonStore =
     Some (1, \<lparr>qtext = ascii ''7 + 8'', answer = 15, isActive = True, winnerId = Some 1,
               winnerName = Some (ascii ''al''), createdAt = 0\<rparr>) \<and>
   winnerId \<lparr>qtext = ascii ''7 + 8'', answer = 15, isActive = True, winnerId = Some 1,
               winnerName = Some (ascii ''al''), createdAt = 0\<rparr> \<noteq> None \<and>
   question_GET 1000000 sampleDraws wonStore =
     (Snapshot \<lparr>questionId = 1, dataText = ascii ''7 + 8'', dataWinnerId = Some 1,
                dataWinnerName = Some (ascii ''al''), remainingMs = 0,
                leaderboard = [(1, ascii ''al'', 6)]\<rparr>, wonStore)"
  using won_question_stays_active[OF findOneActive_wonStore, of 1000000 sampleDraws "[]"]
    findOneActive_wonStore question_GET_wonStore
  by simp

text \<open>
  C3 as stated fails: after the inspection the won question is still stored active.
\<close>

theorem won_question_counterexample:
  "findOneActive wonStore \<noteq> None \<and>
   snd (question_GET 1000000 sampleDraws wonStore) = wonStore \<and>
   map_option isActive (findById 1 (questions (snd (question_GET 1000000 sampleDraws wonStore))))
     = Some True"
  using findOneActive_wonStore question_GET_wonStore
  by (simp add: wonStore_def findById_def)

lemma map_fst_updateById: "map fst (updateById i f c) = map fst c"
  by (induction c) (auto simp: updateById_def)

lemma freshId_updateById: "freshId (updateById i f c) = freshId c"
  by (simp add: freshId_def map_fst_updateById)

lemma remaining_fresh:
  "remainingMs (snapshot qid \<lparr>qtext = t, answer = a, isActive = act, winnerId = w,
      winnerName = wn, createdAt = now\<rparr> now d) = 60000"
  by (simp add: snapshot_def QUESTION_TIMEOUT_MS_def)

lemma snapshot_players: "players d' = players d \<Longrightarrow> snapshot qid q now d' = snapshot qid q now d"
  by (simp add: snapshot_def topPlayers_def)

lemma question_GET_rotates:
  assumes d: "distinctIds d" and act: "findOneActive d = Some (qid, q)"
    and nw: "winnerId q = None" and old: "QUESTION_TIMEOUT_MS < now - createdAt q"
    and g: "generateQuestion (fst draws) (fst (snd draws)) (snd (snd draws)) = Some g"
  shows "rotated now g qid q d (question_GET now draws d)"
proof -
  let ?newQ = "\<lparr>qtext = genText g, answer = genAnswer g, isActive = True, winnerId = None,
                  winnerName = None, createdAt = now\<rparr>"
  let ?d1 = "deactivate qid d"
  let ?qs1 = "updateById qid (\<lambda>q. q\<lparr>isActive := False\<rparr>) (questions d)"
  let ?newId = "freshId (questions d)"
  let ?d2 = "?d1\<lparr>questions := ?qs1 @ [(?newId, ?newQ)]\<rparr>"
  from d act have fq: "findById qid (questions d) = Some q"
    using findOneActive_findById[of d qid q] by (simp add: distinctIds_def)
  have cq: "createQuestion g now ?d1 = ((?newId, ?newQ), ?d2)"
    by (simp add: createQuestion_def insertDoc_def Let_def deactivate_def freshId_updateById)
  from act nw old g cq have run: "question_GET now draws d = (Snapshot (snapshot ?newId ?newQ now ?d2), ?d2)"
    by (simp add: question_GET_def Let_def)
  have pl: "players ?d2 = players d" by (simp add: deactivate_def)
  have ne: "?newId \<noteq> qid" using fq freshId_new[of "questions d"] by auto
  have f1: "findById qid ?qs1 = Some (q\<lparr>isActive := False\<rparr>)"
    using fq by (simp add: findById_updateById)
  have ins: "?qs1 @ [(?newId, ?newQ)] = snd (insertDoc ?newQ ?qs1)"
    by (simp add: insertDoc_def freshId_updateById)
  have f2: "findById qid (questions ?d2) = Some (q\<lparr>isActive := False\<rparr>)"
    using findById_Some_insertDoc[OF f1, of ?newQ] ins by (simp add: deactivate_def)
  have f3: "findById ?newId (questions ?d2) = Some ?newQ"
    using findById_insertDoc[of ?newId ?newQ ?qs1] ins
    by (simp add: deactivate_def freshId_updateById)
  show ?thesis
    unfolding rotated_def Let_def run
    using f2 f3 ne pl snapshot_players[OF pl] remaining_fresh by simp
qed

lemma question_GET_keeps:
  assumes "findOneActive d = Some (qid, q)" "now - createdAt q \<le> QUESTION_TIMEOUT_MS"
  shows "question_GET now draws d = (Snapshot (snapshot qid q now d), d)"
  using assms by (simp add: question_GET_def)

text \<open>
  C5 (amended). When the newest active question has no winner, \<open>GET /api/question\<close>
  rotates exactly when the age of the question is more than 60000 ms: then it stores the
  question retired, creates an active successor at the current time and returns the
  successor with 60000 ms remaining, in the same call. At an age of 60000 ms or less,
  exactly 60000 ms included, it returns the question and changes nothing.
\<close>

theorem timeout_rotation:
  assumes "distinctIds d" "findOneActive d = Some (qid, q)" "winnerId q = None"
    and "unitDraw (fst draws)" "unitDraw (fst (snd draws))" "unitDraw (snd (snd draws))"
  shows "(QUESTION_TIMEOUT_MS < now - createdAt q \<longrightarrow>
           (\<exists>g. generateQuestion (fst draws) (fst (snd draws)) (snd (snd draws)) = Some g \<and>
                rotated now g qid q d (question_GET now draws d))) \<and>
         (now - createdAt q \<le> QUESTION_TIMEOUT_MS \<longrightarrow>
            question_GET now draws d = (Snapshot (snapshot qid q now d), d))"
proof (intro conjI impI)
  assume old: "QUESTION_TIMEOUT_MS < now - createdAt q"
  from generateQuestion_total[OF assms(4-6)] obtain g
    where g: "generateQuestion (fst draws) (fst (snd draws)) (snd (snd draws)) = Some g" by blast
  from question_GET_rotates[OF assms(1-3) old g] g
  show "\<exists>g. generateQuestion (fst draws) (fst (snd draws)) (snd (snd draws)) = Some g \<and>
            rotated now g qid q d (question_GET now draws d)" by blast
next
  assume "now - createdAt q \<le> QUESTION_TIMEOUT_MS"
  with assms(2) show "question_GET now draws d = (Snapshot (snapshot qid q now d), d)"
    by (rule question_GET_keeps)
qed

lemma findOneActive_sampleStore:
  "findOneActive sampleStore =
     Some (1, \<lparr>qtext = ascii ''7 + 8'', answer = 15, isActive = True, winnerId = None,
               winnerName = None, createdAt = 0\<rparr>)"
  by (simp add: findOneActive_def sampleStore_def)

lemma question_GET_at_timeout:
  "question_GET 60000 sampleDraws sampleStore =
     (Snapshot \<lparr>questionId = 1, dataText = ascii ''7 + 8'', dataWinnerId = None,
        dataWinnerName = None, remainingMs = 0, leaderboard = [(1, ascii ''al'', 5)]\<rparr>, sampleStore)"
  by (simp add: question_GET_def findOneActive_sampleStore snapshot_def QUESTION_TIMEOUT_MS_def
      topPlayers_def)
     (simp add: sampleStore_def)

lemma question_GET_after_timeout:
  "question_GET 60001 sampleDraws sampleStore =
     (Snapshot \<lparr>questionId = 2, dataText = ascii ''10 + 10'', dataWinnerId = None,
        dataWinnerName = None, remainingMs = 60000, leaderboard = [(1, ascii ''al'', 5)]\<rparr>,
      \<lparr>players = [(1, \<lparr>username = ascii ''al'', score = 5, highScore = 7\<rparr>)],
       questions =
         [(1, \<lparr>qtext = ascii ''7 + 8'', answer = 15, isActive = False, winnerId = None,
                winnerName = None, createdAt = 0\<rparr>),
          (2, \<lparr>qtext = ascii ''10 + 10'', answer = 20, isActive = True, winnerId = None,
                winnerName = None, createdAt = 60001\<rparr>)]\<rparr>)"
  by (simp add: question_GET_def findOneActive_sampleStore snapshot_def QUESTION_TIMEOUT_MS_def
      topPlayers_def sampleDraws_def generateQuestion_zero createQuestion_def insertDoc_def
      deactivate_def Let_def)
     (simp add: sampleStore_def updateById_def freshId_def)

text \<open>
  The sample question, created at 0, is rotated by an inspection at 60001 and kept by
  one at 60000.
\<close>

theorem timeout_rotation_witness:
  "distinctIds sampleStore \<and>
   findOneActive sampleStore =
     Some (1, \<lparr>qtext = ascii ''7 + 8'', answer = 15, isActive = True, winnerId = None,
               winnerName = None, createdAt = 0\<rparr>) \<and>
   unitDraw (fst sampleDraws) \<and> unitDraw (fst (snd sampleDraws)) \<and>
   unitDraw (snd (snd sampleDraws)) \<and>
   QUESTION_TIMEOUT_MS < 60001 - 0 \<and>
   rotated 60001 \<lparr>genText = ascii ''10 + 10'', genAnswer = 20\<rparr> 1
     \<lparr>qtext = ascii ''7 + 8'', answer = 15, isActive = True, winnerId = None,
      winnerName = None, createdAt = 0\<rparr> sampleStore (question_GET 60001 sampleDraws sampleStore) \<and>
   fst (question_GET 60001 sampleDraws sampleStore) =
     Snapshot \<lparr>questionId = 2, dataText = ascii ''10 + 10'', dataWinnerId = None,
        dataWinnerName = None, remainingMs = 60000, leaderboard = [(1, ascii ''al'', 5)]\<rparr> \<and>
   question_GET 60000 sampleDraws sampleStore =
     (Snapshot \<lparr>questionId = 1, dataText = ascii ''7 + 8'', dataWinnerId = None,
        dataWinnerName = None, remainingMs = 0, leaderboard = [(1, ascii ''al'', 5)]\<rparr>, sampleStore)"
proof -
  have di: "distinctIds sampleStore" by (simp add: distinctIds_def sampleStore_def)
  have nw: "winnerId \<lparr>qtext = ascii ''7 + 8'', answer = 15, isActive = True, winnerId = None,
               winnerName = None, createdAt = 0\<rparr> = None" by simp
  have u: "unitDraw (fst sampleDraws)" "unitDraw (fst (snd sampleDraws))"
    "unitDraw (snd (snd sampleDraws))"
    by (simp_all add: unitDraw_def sampleDraws_def zeroDraw_def)
  have g: "generateQuestion (fst sampleDraws) (fst (snd sampleDraws)) (snd (snd sampleDraws)) =
    Some \<lparr>genText = ascii ''10 + 10'', genAnswer = 20\<rparr>"
    by (simp add: sampleDraws_def generateQuestion_zero)
  from timeout_rotation[OF di findOneActive_sampleStore nw u, of 60001] g
  have "rotated 60001 \<lparr>genText = ascii ''10 + 10'', genAnswer = 20\<rparr> 1
     \<lparr>qtext = ascii ''7 + 8'', answer = 15, isActive = True, winnerId = None,
      winnerName = None, createdAt = 0\<rparr> sampleStore (question_GET 60001 sampleDraws sampleStore)"
    by (simp add: QUESTION_TIMEOUT_MS_def)
  with di findOneActive_sampleStore u question_GET_at_timeout question_GET_after_timeout
  show ?thesis by (simp add: QUESTION_TIMEOUT_MS_def)
qed

text \<open>
  C5 as stated fails at an age of exactly 60000 ms: the question stays active and no
  successor is created.
\<close>

theorem timeout_rotation_counterexample:
  "findOneActive sampleStore =
     Some (1, \<lparr>qtext = ascii ''7 + 8'', answer = 15, isActive = True, winnerId = None,
               winnerName = None, createdAt = 0\<rparr>) \<and>
   QUESTION_TIMEOUT_MS \<le> 60000 - createdAt \<lparr>qtext = ascii ''7 + 8'', answer = 15, isActive = True,
      winnerId = None, winnerName = None, createdAt = 0\<rparr> \<and>
   snd (question_GET 60000 sampleDraws sampleStore) = sampleStore \<and>
   map_option isActive (findById 1 (questions (snd (question_GET 60000 sampleDraws sampleStore))))
     = Some True"
  using findOneActive_sampleStore question_GET_at_timeout
  by (simp add: QUESTION_TIMEOUT_MS_def sampleStore_def findById_def)

subsection \<open>POST /api/answer without interference\<close>

lemma answer_POST_expected: "fst (answer_POST req d) = expectedResponse req d"
proof (cases req)
  case None
  then show ?thesis by (simp add: answer_POST_def expectedResponse_def validateAnswer_def)
next
  case (Some b)
  then show ?thesis
    by (cases "bodyPlayerId b"; cases "bodyQuestionId b"; cases "bodyAnswer b")
       (auto simp: answer_POST_def expectedResponse_def validateAnswer_def checkQuestion_def
          findPlayer_def claimQuestion_def split: option.splits idString.splits)
qed

lemma outcomeOf_messages:
  "outcomeOf (Failure 404 (ascii ''Question not found'')) = Some QuestionNotFound"
  "outcomeOf (Verdict False False (ascii ''Question is no longer active'')) = Some Inactive"
  "outcomeOf (Verdict False False (ascii ''Someone already answered correctly'')) =
     Some AlreadyWon"
  "outcomeOf (Verdict False False (ascii ''Wrong answer, try again!'')) = Some WrongAnswer"
  "outcomeOf (Verdict True False m) = Some TooLate"
  "outcomeOf (Verdict True True m) = Some Win"
  "outcomeOf (Failure 404 (ascii ''Player not found'')) = None"
  "outcomeOf (Failure 400 m) = None"
  "outcomeOf serverError = None"
  by (simp_all add: ascii_def serverError_def)

lemma expectedResponse_known:
  "outcomeOf (expectedResponse req d) \<noteq> None \<or> otherResponse (expectedResponse req d)"
  by (auto simp: expectedResponse_def otherResponse_def outcomeOf_messages
      split: option.splits jsNumber.splits idString.splits)

text \<open>
  C8. A call whose value is not the stored answer of its question writes nothing: the
  store after the call is the store before it, no timer is set, the call is not a win,
  and this holds however often the call is repeated; as a thread, the call responds at
  its first step and leaves the store as it finds it. With valid fields on an active
  question without winner the response is the wrong-answer message.
\<close>

theorem wrong_answer_writes_nothing:
  assumes "bodyQuestionId b = Some (WellFormed qid)" "findById qid (questions d) = Some q"
    and "bodyAnswer b \<noteq> Numeric (answer q)"
  shows "snd (answer_POST (Some b) d) = (d, []) \<and>
         \<not> isWin (fst (answer_POST (Some b) d)) \<and>
         ((\<lambda>d. fst (snd (answer_POST (Some b) d))) ^^ n) d = d \<and>
         answerStep (Some b) ReadQuestion now d =
           (Responded (fst (answer_POST (Some b) d)), d, []) \<and>
         (bodyPlayerId b \<noteq> None \<and> bodyAnswer b \<notin> {Missing, NotNumeric} \<and>
          isActive q \<and> winnerId q = None \<longrightarrow>
            fst (answer_POST (Some b) d) =
              Verdict False False (ascii ''Wrong answer, try again!''))"
proof -
  have 1: "snd (answer_POST (Some b) d) = (d, [])"
    using assms
    by (cases "bodyPlayerId b"; cases "bodyAnswer b")
       (auto simp: answer_POST_def validateAnswer_def checkQuestion_def)
  have 2: "\<not> isWin (fst (answer_POST (Some b) d))"
    using assms
    by (cases "bodyPlayerId b"; cases "bodyAnswer b")
       (auto simp: answer_POST_def validateAnswer_def checkQuestion_def serverError_def)
  have 3: "((\<lambda>d. fst (snd (answer_POST (Some b) d))) ^^ n) d = d"
    using 1 by (induction n) simp_all
  have 4: "answerStep (Some b) ReadQuestion now d =
      (Responded (fst (answer_POST (Some b) d)), d, [])"
    using assms
    by (cases "bodyPlayerId b"; cases "bodyAnswer b")
       (auto simp: answer_POST_def validateAnswer_def checkQuestion_def)
  have 5: "bodyPlayerId b \<noteq> None \<and> bodyAnswer b \<notin> {Missing, NotNumeric} \<and>
          isActive q \<and> winnerId q = None \<longrightarrow>
            fst (answer_POST (Some b) d) =
              Verdict False False (ascii ''Wrong answer, try again!'')"
    using assms
    by (cases "bodyPlayerId b"; cases "bodyAnswer b")
       (auto simp: answer_POST_def validateAnswer_def checkQuestion_def)
  from 1 2 3 4 5 show ?thesis by blast
qed

lemma answer_POST_wrong:
  "answer_POST (Some wrongAnswer) sampleStore =
     (Verdict False False (ascii ''Wrong answer, try again!''), sampleStore, [])"
  by (simp add: answer_POST_def validateAnswer_def checkQuestion_def wrongAnswer_def
      sampleStore_def findById_def)

text \<open>The answer 14 to the question 7 + 8, once and three times over.\<close>

theorem wrong_answer_writes_nothing_witness:
  "bodyQuestionId wrongAnswer = Some (WellFormed 1) \<and>
   findById 1 (questions sampleStore) =
     Some \<lparr>qtext = ascii ''7 + 8'', answer = 15, isActive = True, winnerId = None,
           winnerName = None, createdAt = 0\<rparr> \<and>
   bodyAnswer wrongAnswer \<noteq> Numeric 15 \<and>
   answer_POST (Some wrongAnswer) sampleStore =
     (Verdict False False (ascii ''Wrong answer, try again!''), sampleStore, []) \<and>
   ((\<lambda>d. fst (snd (answer_POST (Some wrongAnswer) d))) ^^ 3) sampleStore = sampleStore"
proof -
  have a: "bodyQuestionId wrongAnswer = Some (WellFormed 1)" by (simp add: wrongAnswer_def)
  have b: "findById 1 (questions sampleStore) =
     Some \<lparr>qtext = ascii ''7 + 8'', answer = 15, isActive = True, winnerId = None,
           winnerName = None, createdAt = 0\<rparr>" by (simp add: sampleStore_def findById_def)
  have c: "bodyAnswer wrongAnswer \<noteq> Numeric (answer \<lparr>qtext = ascii ''7 + 8'', answer = 15,
     isActive = True, winnerId = None, winnerName = None, createdAt = 0\<rparr>)"
    by (simp add: wrongAnswer_def)
  from wrong_answer_writes_nothing[OF a b c, of 3 0] a b c answer_POST_wrong
  show ?thesis by simp
qed

subsection \<open>Every storage operation continues the store\<close>

lemma continues_refl: "continues d d"
  by (simp add: continues_def)

lemma continues_trans: "continues a b \<Longrightarrow> continues b c \<Longrightarrow> continues a c"
  unfolding continues_def
  apply (intro conjI allI impI)
   apply (metis (no_types, lifting))
  apply (metis (no_types, lifting))
  done

lemma continues_incScore: "continues d (incScore pid d)"
  by (auto simp: continues_def incScore_def findById_updateById)

lemma continues_resetScore: "continues d (resetScore pid d)"
  by (auto simp: continues_def resetScore_def findById_updateById)

lemma continues_deactivate: "continues d (deactivate qid d)"
  by (auto simp: continues_def deactivate_def findById_updateById)

lemma continues_claimQuestion: "continues d (snd (claimQuestion qid pid name d))"
  by (auto simp: continues_def claimQuestion_def findById_updateById split: option.splits)

lemma continues_createQuestion: "continues d (snd (createQuestion g now d))"
proof -
  have "snd (createQuestion g now d) =
    d\<lparr>questions := snd (insertDoc \<lparr>qtext = genText g, answer = genAnswer g, isActive = True,
               winnerId = None, winnerName = None, createdAt = now\<rparr> (questions d))\<rparr>"
    by (simp add: createQuestion_def Let_def split: prod.splits)
  then show ?thesis
    by (auto simp: continues_def findById_Some_insertDoc)
qed

lemma continues_createPlayer: "createPlayer p d = Some (x, d1) \<Longrightarrow> continues d d1"
proof -
  assume "createPlayer p d = Some (x, d1)"
  then have "d1 = d\<lparr>players := snd (insertDoc p (players d))\<rparr>"
    by (auto simp: createPlayer_def Let_def split: option.splits prod.splits)
  then show ?thesis
    by (auto simp: continues_def findById_Some_insertDoc)
qed

lemma continues_answerStep: "answerStep b pc now d = (pc', d', started) \<Longrightarrow> continues d d'"
proof (cases pc)
  case ReadQuestion
  assume "answerStep b pc now d = (pc', d', started)"
  with ReadQuestion have "d' = d" by (auto split: sum.splits option.splits)
  then show ?thesis by (simp add: continues_refl)
next
  case ReadPlayer
  assume "answerStep b pc now d = (pc', d', started)"
  with ReadPlayer have "d' = d" by (auto split: sum.splits option.splits)
  then show ?thesis by (simp add: continues_refl)
next
  case (ClaimWin name)
  assume "answerStep b pc now d = (pc', d', started)"
  with ClaimWin have "d' = d \<or> (\<exists>qid pid. d' = snd (claimQuestion qid pid name d))"
    by (auto split: option.splits prod.splits) (metis snd_conv)+
  then show ?thesis by (auto simp: continues_refl continues_claimQuestion)
next
  case (AwardScore name)
  assume "answerStep b pc now d = (pc', d', started)"
  with AwardScore have "d' = d \<or> (\<exists>pid. d' = incScore pid d)"
    by (auto split: option.splits)
  then show ?thesis by (auto simp: continues_refl continues_incScore)
next
  case (Responded r)
  assume "answerStep b pc now d = (pc', d', started)"
  with Responded have "d' = d" by simp
  then show ?thesis by (simp add: continues_refl)
qed

lemma continues_timerStep: "timerStep qid due pc now draws d = (pc', d') \<Longrightarrow> continues d d'"
  by (cases pc)
     (auto simp: continues_refl continues_deactivate continues_createQuestion
        split: if_splits option.splits)

lemma continues_pollStep: "pollStep pc now draws d = (pc', d') \<Longrightarrow> continues d d'"
proof (cases pc)
  case CreateNext
  assume "pollStep pc now draws d = (pc', d')"
  with CreateNext have "d' = d \<or> (\<exists>g. d' = snd (createQuestion g now d))"
    by (auto split: option.splits prod.splits) (metis snd_conv)
  then show ?thesis by (auto simp: continues_refl continues_createQuestion)
qed (auto simp: continues_refl continues_deactivate split: if_splits option.splits)

lemma continues_joinStep: "joinStep v body pc d = (pc', d') \<Longrightarrow> continues d d'"
proof (cases pc)
  case FindPlayer
  assume "joinStep v body pc d = (pc', d')"
  with FindPlayer have "d' = d"
    by (auto simp: Let_def split: option.splits usernameField.splits if_splits
        joinVersion.splits)
  then show ?thesis by (simp add: continues_refl)
next
  case (InsertPlayer trimmed)
  assume "joinStep v body pc d = (pc', d')"
  with InsertPlayer have "d' = d \<or>
     (\<exists>x. createPlayer \<lparr>username = trimmed, score = 0, highScore = 0\<rparr> d = Some (x, d'))"
    by (auto split: option.splits)
  then show ?thesis by (auto simp: continues_refl continues_createPlayer)
qed (auto simp: continues_refl continues_resetScore)

lemma continues_threadStep: "threadStep t now draws d = (t', d', started) \<Longrightarrow> continues d d'"
  by (cases t)
     (auto split: prod.splits
        dest: continues_answerStep continues_timerStep continues_pollStep continues_joinStep)

lemma continues_systemStep: "continues (store s) (store (systemStep ev s))"
proof -
  obtain tid now draws where ev: "ev = (tid, now, draws)" by (cases ev)
  show ?thesis
  proof (cases "tid < length (pool s)")
    case False
    with ev show ?thesis by (simp add: systemStep_def continues_refl)
  next
    case True
    obtain t' d' started where st: "threadStep (pool s ! tid) now draws (store s) = (t', d', started)"
      by (cases "threadStep (pool s ! tid) now draws (store s)")
    with ev True have "store (systemStep ev s) = d'" by (simp add: systemStep_def)
    with continues_threadStep[OF st] show ?thesis by simp
  qed
qed

lemma continues_systemRun: "continues (store s) (store (systemRun evs s))"
  unfolding systemRun_def
proof (induction evs arbitrary: s)
  case Nil show ?case by (simp add: continues_refl)
next
  case (Cons ev evs)
  from continues_trans[OF continues_systemStep[of s ev] Cons.IH[of "systemStep ev s"]]
  show ?case by simp
qed

lemma continues_answer_POST: "continues d (fst (snd (answer_POST b d)))"
proof -
  have "fst (snd (answer_POST b d)) = d \<or>
        (\<exists>qid pid name. fst (snd (answer_POST b d)) = snd (claimQuestion qid pid name d)) \<or>
        (\<exists>qid pid name. fst (snd (answer_POST b d)) = incScore pid (snd (claimQuestion qid pid name d)))"
    by (auto simp: answer_POST_def split: sum.splits option.splits prod.splits idString.splits)
       (metis snd_conv)+
  then show ?thesis
    by (auto simp: continues_refl continues_claimQuestion
        intro: continues_trans[OF continues_claimQuestion continues_incScore])
qed

lemma continues_join_POST: "continues d (snd (join_POST body d))"
  by (auto simp: join_POST_def Let_def continues_refl
      split: option.splits usernameField.splits dest: continues_createPlayer)

lemma continues_join_POST_reset: "continues d (snd (join_POST_reset body d))"
  by (auto simp: join_POST_reset_def Let_def continues_refl continues_resetScore
      split: option.splits usernameField.splits dest: continues_createPlayer)

lemma continues_question_GET: "continues d (snd (question_GET now draws d))"
proof -
  have "snd (question_GET now draws d) = d \<or>
        (\<exists>g. snd (question_GET now draws d) = snd (createQuestion g now d)) \<or>
        (\<exists>qid. snd (question_GET now draws d) = deactivate qid d) \<or>
        (\<exists>qid g. snd (question_GET now draws d) = snd (createQuestion g now (deactivate qid d)))"
    by (auto simp: question_GET_def Let_def split: option.splits prod.splits) (metis snd_conv)+
  then show ?thesis
    by (auto simp: continues_refl continues_createQuestion continues_deactivate
        intro: continues_trans[OF continues_deactivate continues_createQuestion])
qed

lemma continues_highScore:
  "continues d d' \<Longrightarrow> findById p (players d) = Some pl \<Longrightarrow>
   map_option highScore (findById p (players d')) = Some (highScore pl)"
  unfolding continues_def by fastforce

lemma incScore_fields:
  "findById p (players d) = Some pl \<Longrightarrow>
   findById p (players (incScore pid d)) =
     Some (if p = pid then pl\<lparr>score := score pl + 1\<rparr> else pl)"
  by (cases "p = pid") (simp_all add: incScore_def findById_updateById)

text \<open>
  C9. For a stored player, the score increment of a win changes the score of the winner
  alone and no other field; and no handler (answer, both joins, question) and no run of
  the system under any schedule and any threads changes the player's high score.
\<close>

theorem highScore_never_written:
  assumes "findById p (players d) = Some pl"
  shows "findById p (players (incScore pid d)) =
           Some (if p = pid then pl\<lparr>score := score pl + 1\<rparr> else pl) \<and>
         map_option highScore (findById p (players (fst (snd (answer_POST b d))))) =
           Some (highScore pl) \<and>
         map_option highScore (findById p (players (snd (join_POST body d)))) =
           Some (highScore pl) \<and>
         map_option highScore (findById p (players (snd (join_POST_reset body d)))) =
           Some (highScore pl) \<and>
         map_option highScore (findById p (players (snd (question_GET now draws d)))) =
           Some (highScore pl) \<and>
         map_option highScore
           (findById p (players (store (systemRun evs \<lparr>store = d, pool = ts\<rparr>)))) =
           Some (highScore pl)"
  using assms incScore_fields[OF assms, of pid]
    continues_highScore[OF continues_answer_POST assms, of b]
    continues_highScore[OF continues_join_POST assms, of body]
    continues_highScore[OF continues_join_POST_reset assms, of body]
    continues_highScore[OF continues_question_GET assms, of now draws]
    continues_highScore[OF continues_systemRun[of "\<lparr>store = d, pool = ts\<rparr>" evs]]
  by simp

subsection \<open>Counting threads\<close>

lemma length_filter_update:
  "i < length xs \<Longrightarrow>
   length (filter P (xs[i := y])) + (if P (xs ! i) then 1 else 0) =
   length (filter P xs) + (if P y then 1 else 0)"
proof (induction xs arbitrary: i)
  case Nil then show ?case by simp
next
  case (Cons x xs)
  show ?case
  proof (cases i)
    case 0 then show ?thesis by simp
  next
    case (Suc j)
    with Cons.prems have "j < length xs" by simp
    from Cons.IH[OF this] Suc show ?thesis by simp
  qed
qed

lemma filter_none: "(\<forall>x \<in> set xs. \<not> P x) \<Longrightarrow> length (filter P xs) = 0"
  by (induction xs) auto

lemma filter_pos_mem: "0 < length (filter P xs) \<Longrightarrow> \<exists>x \<in> set xs. P x"
  by (induction xs) (auto split: if_splits)

subsection \<open>Steps of one answer call\<close>

lemma validateAnswer_ids:
  "validateAnswer req = Inr (pid, qid, n) \<Longrightarrow>
   playerOf req = (case pid of Malformed \<Rightarrow> None | WellFormed p \<Rightarrow> Some p) \<and>
   questionOf req = (case qid of Malformed \<Rightarrow> None | WellFormed q \<Rightarrow> Some q)"
proof (cases req)
  case None
  assume "validateAnswer req = Inr (pid, qid, n)"
  with None show ?thesis by (simp add: validateAnswer_def)
next
  case (Some b)
  assume "validateAnswer req = Inr (pid, qid, n)"
  with Some show ?thesis
    by (cases "bodyPlayerId b"; cases "bodyQuestionId b"; cases "bodyAnswer b")
       (auto simp: validateAnswer_def playerOf_def questionOf_def split: idString.splits)
qed

lemma knownResponse_serverError: "\<not> isWin serverError \<and> knownResponse serverError"
  by (simp add: knownResponse_def otherResponse_def serverError_def)

lemma validateAnswer_known: "validateAnswer req = Inl r \<Longrightarrow> \<not> isWin r \<and> knownResponse r"
proof (cases req)
  case None
  assume "validateAnswer req = Inl r"
  with None knownResponse_serverError show ?thesis by (simp add: validateAnswer_def)
next
  case (Some b)
  assume "validateAnswer req = Inl r"
  with Some show ?thesis
    by (cases "bodyPlayerId b"; cases "bodyQuestionId b"; cases "bodyAnswer b")
       (auto simp: validateAnswer_def knownResponse_def otherResponse_def)
qed

lemma checkQuestion_known: "checkQuestion qid n d = Some r \<Longrightarrow> \<not> isWin r \<and> knownResponse r"
  using knownResponse_serverError
  by (auto simp: checkQuestion_def knownResponse_def outcomeOf_messages
      split: option.splits if_splits idString.splits)

lemma findPlayer_Inl: "findPlayer pid d = Inl r \<Longrightarrow> \<not> isWin r \<and> knownResponse r"
  using knownResponse_serverError
  by (auto simp: findPlayer_def knownResponse_def otherResponse_def
      split: option.splits idString.splits)

lemma findPlayer_Inr:
  "findPlayer pid d = Inr (p, pl) \<Longrightarrow> pid = WellFormed p \<and> findById p (players d) = Some pl"
  by (auto simp: findPlayer_def split: option.splits idString.splits)

lemma claimQuestion_Some:
  "claimQuestion qid pid name d = (Some res, d1) \<Longrightarrow>
   (\<exists>qd. findById qid (questions d) = Some qd \<and> winnerId qd = None \<and> isActive qd \<and>
      findById qid (questions d1) = Some (qd\<lparr>winnerId := Some pid, winnerName := Some name\<rparr>)) \<and>
   players d1 = players d"
  by (auto simp: claimQuestion_def findById_updateById split: option.splits if_splits)

lemma claimQuestion_None: "claimQuestion qid pid name d = (None, d1) \<Longrightarrow> d1 = d"
  by (auto simp: claimQuestion_def split: option.splits if_splits)

text \<open>The cases of a step, one lemma per program point.\<close>

lemma answerStep_ReadQuestion:
  "answerStep b ReadQuestion now d = (pc', d', started) \<Longrightarrow>
   d' = d \<and> started = [] \<and>
   (pc' = ReadPlayer \<or> (\<exists>r. pc' = Responded r \<and> \<not> isWin r \<and> knownResponse r))"
proof -
  assume a: "answerStep b ReadQuestion now d = (pc', d', started)"
  show ?thesis
  proof (cases "validateAnswer b")
    case (Inl r)
    with a validateAnswer_known[OF Inl] show ?thesis by auto
  next
    case (Inr x)
    obtain pid qid n where x: "x = (pid, qid, n)" by (cases x)
    show ?thesis
    proof (cases "checkQuestion qid n d")
      case None
      with a Inr x show ?thesis by auto
    next
      case (Some r)
      with a Inr x checkQuestion_known[OF Some] show ?thesis by auto
    qed
  qed
qed

lemma answerStep_ReadPlayer:
  "answerStep b ReadPlayer now d = (pc', d', started) \<Longrightarrow>
   d' = d \<and> started = [] \<and>
   ((\<exists>pid pl. playerOf b = Some pid \<and> findById pid (players d) = Some pl \<and>
       pc' = ClaimWin (username pl)) \<or>
    (\<exists>r. pc' = Responded r \<and> \<not> isWin r \<and> knownResponse r))"
proof -
  assume a: "answerStep b ReadPlayer now d = (pc', d', started)"
  show ?thesis
  proof (cases "validateAnswer b")
    case (Inl r)
    with a validateAnswer_known[OF Inl] show ?thesis by auto
  next
    case (Inr x)
    obtain pid qid n where x: "x = (pid, qid, n)" by (cases x)
    note ids = validateAnswer_ids[OF Inr[unfolded x]]
    show ?thesis
    proof (cases "findPlayer pid d")
      case (Inl r)
      with a Inr x findPlayer_Inl[OF Inl] show ?thesis by auto
    next
      case (Inr y)
      obtain p pl where y: "y = (p, pl)" by (cases y)
      from findPlayer_Inr[OF Inr[unfolded y]] ids
      have "playerOf b = Some p" "findById p (players d) = Some pl" by simp_all
      with a \<open>validateAnswer b = Inr x\<close> x Inr y show ?thesis by auto
    qed
  qed
qed

lemma answerStep_ClaimWin:
  "answerStep b (ClaimWin name) now d = (pc', d', started) \<Longrightarrow>
   started = [] \<and> players d' = players d \<and>
   ((\<exists>pid qid qd. playerOf b = Some pid \<and> questionOf b = Some qid \<and>
       findById qid (questions d) = Some qd \<and> winnerId qd = None \<and> isActive qd \<and>
       findById qid (questions d') = Some (qd\<lparr>winnerId := Some pid, winnerName := Some name\<rparr>) \<and>
       pc' = AwardScore name) \<or>
    (\<exists>r. d' = d \<and> pc' = Responded r \<and> \<not> isWin r \<and> knownResponse r))"
proof -
  assume a: "answerStep b (ClaimWin name) now d = (pc', d', started)"
  show ?thesis
  proof (cases "questionOf b")
    case None
    with a knownResponse_serverError show ?thesis by auto
  next
    case (Some qid)
    note q = Some
    show ?thesis
    proof (cases "playerOf b")
      case None
      with a q knownResponse_serverError show ?thesis by auto
    next
      case (Some pid)
      note p = Some
      obtain res d1 where c: "claimQuestion qid pid name d = (res, d1)"
        by (cases "claimQuestion qid pid name d")
      show ?thesis
      proof (cases res)
        case None
        with a q p c claimQuestion_None[OF c[unfolded None]] show ?thesis
          by (auto simp: knownResponse_def)
      next
        case (Some r)
        with a q p c claimQuestion_Some[OF c[unfolded Some]] show ?thesis
          by auto
      qed
    qed
  qed
qed

lemma answerStep_AwardScore:
  "answerStep b (AwardScore name) now d = (pc', d', started) \<Longrightarrow>
   (\<exists>pid qid. playerOf b = Some pid \<and> questionOf b = Some qid \<and>
       d' = incScore pid d \<and> pc' = Responded (Verdict True True (winMessage name)) \<and>
       started = [TimerT qid (now + int ROTATION_DELAY_MS) Pending]) \<or>
   (\<exists>r. d' = d \<and> started = [] \<and> pc' = Responded r \<and> \<not> isWin r \<and> knownResponse r)"
proof -
  assume a: "answerStep b (AwardScore name) now d = (pc', d', started)"
  show ?thesis
  proof (cases "questionOf b")
    case None
    with a knownResponse_serverError show ?thesis by auto
  next
    case (Some qid)
    note q = Some
    show ?thesis
    proof (cases "playerOf b")
      case None
      with a q knownResponse_serverError show ?thesis by auto
    next
      case (Some pid)
      with a q show ?thesis by auto
    qed
  qed
qed

lemma scoreOf_incScore:
  "findById pid (players d) \<noteq> None \<Longrightarrow>
   scoreOf p (incScore pid d) = scoreOf p d + (if p = pid then 1 else 0)"
  by (auto simp: scoreOf_def incScore_def findById_updateById split: option.splits)

lemma scoreOf_players: "players d' = players d \<Longrightarrow> scoreOf p d' = scoreOf p d"
  by (simp add: scoreOf_def)

lemma knownResponse_win: "knownResponse (Verdict True True m)"
  by (simp add: knownResponse_def)

lemma timerStep_players: "timerStep qid due pc now draws d = (pc', d') \<Longrightarrow> players d' = players d"
  by (cases pc)
     (auto simp: deactivate_def createQuestion_def Let_def split: if_splits option.splits prod.splits)

lemma pollStep_players: "pollStep pc now draws d = (pc', d') \<Longrightarrow> players d' = players d"
  by (cases pc)
     (auto simp: deactivate_def createQuestion_def Let_def split: if_splits option.splits prod.splits)

lemma playerKnown_continues: "continues d d' \<Longrightarrow> playerKnown d t \<Longrightarrow> playerKnown d' t"
proof (cases t)
  case (AnswerT b pc)
  assume c: "continues d d'" and k: "playerKnown d t"
  have ex: "findById pid (players d) \<noteq> None \<Longrightarrow> findById pid (players d') \<noteq> None" for pid
    using c unfolding continues_def by fastforce
  from AnswerT k ex show ?thesis
    by (cases pc) (auto split: option.splits)
qed simp_all

lemma threadStep_facts:
  assumes st: "threadStep t now draws d = (t', d', started)"
    and nj: "\<not> isJoin t" and pk: "playerKnown d t"
  shows "\<not> isJoin t' \<and>
    list_all (\<lambda>x. \<not> isJoin x \<and> \<not> wonQuestion q x \<and> \<not> credited p x \<and>
           playerKnown d' x \<and> respondedKnown x) started \<and>
    playerKnown d' t' \<and>
    (wonQuestion q t' \<and> \<not> wonQuestion q t \<longrightarrow>
           (\<forall>qd. findById q (questions d) = Some qd \<longrightarrow> winnerId qd = None) \<and>
           (\<exists>qd'. findById q (questions d') = Some qd' \<and> winnerId qd' \<noteq> None)) \<and>
    scoreOf p d' = scoreOf p d + (if credited p t' \<and> \<not> credited p t then 1 else 0) \<and>
    (credited p t \<longrightarrow> credited p t') \<and>
    (respondedKnown t \<longrightarrow> respondedKnown t')"
  proof (cases t)
    case (AnswerT b pc)
    obtain pc' where s: "answerStep b pc now d = (pc', d', started)" and t': "t' = AnswerT b pc'"
      using st AnswerT by (auto split: prod.splits)
    show ?thesis
    proof (cases pc)
      case ReadQuestion
      from answerStep_ReadQuestion[OF s[unfolded ReadQuestion]]
      have e: "d' = d" "started = []"
        and "pc' = ReadPlayer \<or> (\<exists>r. pc' = Responded r \<and> \<not> isWin r \<and> knownResponse r)"
        by simp_all
      then consider (go) "pc' = ReadPlayer"
        | (stop) r where "pc' = Responded r" "\<not> isWin r" "knownResponse r" by blast
      then show ?thesis
      proof cases
        case go with e AnswerT ReadQuestion t' show ?thesis by simp
      next
        case stop with e AnswerT ReadQuestion t' show ?thesis by simp
      qed
    next
      case ReadPlayer
      from answerStep_ReadPlayer[OF s[unfolded ReadPlayer]]
      have e: "d' = d" "started = []"
        and "(\<exists>pid pl. playerOf b = Some pid \<and> findById pid (players d) = Some pl \<and>
                pc' = ClaimWin (username pl)) \<or>
             (\<exists>r. pc' = Responded r \<and> \<not> isWin r \<and> knownResponse r)"
        by simp_all
      then consider (go) pid pl where "playerOf b = Some pid"
            "findById pid (players d) = Some pl" "pc' = ClaimWin (username pl)"
        | (stop) r where "pc' = Responded r" "\<not> isWin r" "knownResponse r" by blast
      then show ?thesis
      proof cases
        case go with e AnswerT ReadPlayer t' show ?thesis by simp
      next
        case stop with e AnswerT ReadPlayer t' show ?thesis by simp
      qed
    next
      case (ClaimWin name)
      from answerStep_ClaimWin[OF s[unfolded ClaimWin]]
      have e: "started = []" "players d' = players d"
        and "(\<exists>pid qid qd. playerOf b = Some pid \<and> questionOf b = Some qid \<and>
               findById qid (questions d) = Some qd \<and> winnerId qd = None \<and> isActive qd \<and>
               findById qid (questions d') =
                 Some (qd\<lparr>winnerId := Some pid, winnerName := Some name\<rparr>) \<and>
               pc' = AwardScore name) \<or>
             (\<exists>r. d' = d \<and> pc' = Responded r \<and> \<not> isWin r \<and> knownResponse r)"
        by simp_all
      then consider (go) pid qid qd where "playerOf b = Some pid" "questionOf b = Some qid"
            "findById qid (questions d) = Some qd" "winnerId qd = None"
            "findById qid (questions d') = Some (qd\<lparr>winnerId := Some pid, winnerName := Some name\<rparr>)"
            "pc' = AwardScore name"
        | (stop) r where "d' = d" "pc' = Responded r" "\<not> isWin r" "knownResponse r" by blast
      then show ?thesis
      proof cases
        case go
        from pk AnswerT ClaimWin go(1) have ex: "findById pid (players d') \<noteq> None"
          by (simp add: e)
        have won: "questionOf b = Some q \<longrightarrow>
           (\<forall>qd. findById q (questions d) = Some qd \<longrightarrow> winnerId qd = None) \<and>
           (\<exists>qd'. findById q (questions d') = Some qd' \<and> winnerId qd' \<noteq> None)"
          using go by auto
        from go e AnswerT ClaimWin t' ex won scoreOf_players[OF e(2), of p] show ?thesis by simp
      next
        case stop with e AnswerT ClaimWin t' show ?thesis by simp
      qed
    next
      case (AwardScore name)
      from answerStep_AwardScore[OF s[unfolded AwardScore]]
      consider (win) pid qid where "playerOf b = Some pid" "questionOf b = Some qid"
          "d' = incScore pid d" "pc' = Responded (Verdict True True (winMessage name))"
          "started = [TimerT qid (now + int ROTATION_DELAY_MS) Pending]"
        | (inv) r where "d' = d" "started = []" "pc' = Responded r" "\<not> isWin r" "knownResponse r"
        by blast
      then show ?thesis
      proof cases
        case win
        from pk AnswerT AwardScore win(1) have ex: "findById pid (players d) \<noteq> None" by simp
        have sc: "scoreOf p d' = scoreOf p d + (if Some pid = Some p then 1 else 0)"
          using scoreOf_incScore[OF ex, of p] win(3) by auto
        from win AnswerT AwardScore t' sc knownResponse_win[of "winMessage name"]
        show ?thesis by simp
      next
        case inv
        with AnswerT AwardScore t' show ?thesis by simp
      qed
    next
      case (Responded r)
      from s Responded have "pc' = Responded r" "d' = d" "started = []" by simp_all
      with Responded AnswerT t' show ?thesis by auto
    qed
  next
    case (TimerT qid due pc)
    obtain pc' where s: "timerStep qid due pc now draws d = (pc', d')" and t': "t' = TimerT qid due pc'"
      and e: "started = []"
      using st TimerT by (auto split: prod.splits)
    from scoreOf_players[OF timerStep_players[OF s], of p] timerStep_players[OF s] TimerT t' e
    show ?thesis by simp
  next
    case (PollT pc)
    obtain pc' where s: "pollStep pc now draws d = (pc', d')" and t': "t' = PollT pc'"
      and e: "started = []"
      using st PollT by (auto split: prod.splits)
    from scoreOf_players[OF pollStep_players[OF s], of p] pollStep_players[OF s] PollT t' e
    show ?thesis by simp
  next
    case (JoinT v u pc)
    with nj show ?thesis by simp
  qed

subsection \<open>Steps and runs of the system\<close>

lemma systemStep_idle:
  "\<not> tid < length (pool s) \<Longrightarrow> systemStep (tid, now, draws) s = s"
  by (simp add: systemStep_def)

lemma systemStep_thread:
  "tid < length (pool s) \<Longrightarrow>
   threadStep (pool s ! tid) now draws (store s) = (t', d', started) \<Longrightarrow>
   systemStep (tid, now, draws) s = \<lparr>store = d', pool = (pool s)[tid := t'] @ started\<rparr>"
  by (simp add: systemStep_def)

lemma winner_continues:
  assumes "continues d d'"
    and "case findById q (questions d) of None \<Rightarrow> False | Some qd \<Rightarrow> winnerId qd \<noteq> None"
  shows "case findById q (questions d') of None \<Rightarrow> False | Some qd \<Rightarrow> winnerId qd \<noteq> None"
proof -
  from assms(2) obtain qd where qd: "findById q (questions d) = Some qd" "winnerId qd \<noteq> None"
    by (auto split: option.splits)
  with assms(1) obtain qd' where "findById q (questions d') = Some qd'" "winnerId qd' \<noteq> None"
    unfolding continues_def by blast
  then show ?thesis by simp
qed

lemma raceInv_step:
  assumes inv: "raceInv q p base s"
  shows "raceInv q p base (systemStep ev s)"
proof -
  obtain tid now draws where ev: "ev = (tid, now, draws)" by (cases ev)
  show ?thesis
  proof (cases "tid < length (pool s)")
    case False
    with inv ev show ?thesis by (simp add: systemStep_idle)
  next
    case True
    let ?xs = "pool s" and ?d = "store s"
    let ?t = "pool s ! tid"
    obtain t' d' started where st: "threadStep ?t now draws ?d = (t', d', started)"
      by (cases "threadStep ?t now draws ?d")
    let ?s' = "\<lparr>store = d', pool = ?xs[tid := t'] @ started\<rparr>"
    have s': "systemStep ev s = ?s'" using ev systemStep_thread[OF True st] by simp
    from inv have I1: "wins q s \<le> 1"
      and I2: "0 < wins q s \<longrightarrow>
         (case findById q (questions ?d) of None \<Rightarrow> False | Some qd \<Rightarrow> winnerId qd \<noteq> None)"
      and I3: "scoreOf p ?d = base + int (credits p s)"
      and I4: "\<forall>t \<in> set ?xs. playerKnown ?d t \<and> \<not> isJoin t"
      by (simp_all add: raceInv_def list_all_iff)
    from True have mem: "?t \<in> set ?xs" by simp
    with I4 have pk: "playerKnown ?d ?t" and nj: "\<not> isJoin ?t" by simp_all
    note ff = threadStep_facts[OF st nj pk, of q p]
    note f = ff[THEN conjunct1] ff[THEN conjunct2, THEN conjunct1]
      ff[THEN conjunct2, THEN conjunct2, THEN conjunct1]
      ff[THEN conjunct2, THEN conjunct2, THEN conjunct2, THEN conjunct1]
      ff[THEN conjunct2, THEN conjunct2, THEN conjunct2, THEN conjunct2, THEN conjunct1]
      ff[THEN conjunct2, THEN conjunct2, THEN conjunct2, THEN conjunct2, THEN conjunct2, THEN conjunct1]
      ff[THEN conjunct2, THEN conjunct2, THEN conjunct2, THEN conjunct2, THEN conjunct2, THEN conjunct2]
    have cont: "continues ?d d'" by (rule continues_threadStep[OF st])
    let ?W = "wonQuestion q" and ?C = "credited p"
    have noW: "length (filter ?W started) = 0"
      using f(2) by (intro filter_none) (simp add: list_all_iff)
    have noC: "length (filter ?C started) = 0"
      using f(2) by (intro filter_none) (simp add: list_all_iff)
    have wins': "wins q ?s' + (if ?W ?t then 1 else 0) = wins q s + (if ?W t' then 1 else 0)"
      using length_filter_update[OF True, of ?W t'] noW by (simp add: wins_def)
    have credits': "credits p ?s' + (if ?C ?t then 1 else 0) = credits p s + (if ?C t' then 1 else 0)"
      using length_filter_update[OF True, of ?C t'] noC by (simp add: credits_def)
    have J12: "wins q ?s' \<le> 1 \<and>
       (0 < wins q ?s' \<longrightarrow>
         (case findById q (questions d') of None \<Rightarrow> False | Some qd \<Rightarrow> winnerId qd \<noteq> None))"
    proof (cases "?W t' \<and> \<not> ?W ?t")
      case True
      with f(4) have none: "\<forall>qd. findById q (questions ?d) = Some qd \<longrightarrow> winnerId qd = None"
        and some: "\<exists>qd'. findById q (questions d') = Some qd' \<and> winnerId qd' \<noteq> None"
        by simp_all
      have "wins q s = 0"
      proof (rule ccontr)
        assume "wins q s \<noteq> 0"
        with I2 have "case findById q (questions ?d) of None \<Rightarrow> False | Some qd \<Rightarrow> winnerId qd \<noteq> None"
          by simp
        with none show False by (auto split: option.splits)
      qed
      with wins' True have "wins q ?s' = 1" by simp
      moreover from some
      have "case findById q (questions d') of None \<Rightarrow> False | Some qd \<Rightarrow> winnerId qd \<noteq> None"
        by auto
      ultimately show ?thesis by simp
    next
      case False
      with wins' have le: "wins q ?s' \<le> wins q s" by (auto split: if_splits)
      with I1 have "wins q ?s' \<le> 1" by simp
      moreover have "0 < wins q ?s' \<longrightarrow>
         (case findById q (questions d') of None \<Rightarrow> False | Some qd \<Rightarrow> winnerId qd \<noteq> None)"
      proof
        assume "0 < wins q ?s'"
        with le have "0 < wins q s" by simp
        with I2 have "case findById q (questions ?d) of None \<Rightarrow> False | Some qd \<Rightarrow> winnerId qd \<noteq> None"
          by simp
        from winner_continues[OF cont this] show
          "case findById q (questions d') of None \<Rightarrow> False | Some qd \<Rightarrow> winnerId qd \<noteq> None" .
      qed
      ultimately show ?thesis by simp
    qed
    have J3: "scoreOf p d' = base + int (credits p ?s')"
      using credits' f(5) f(6) I3 by (auto split: if_splits)
    have J4: "\<forall>x \<in> set (?xs[tid := t'] @ started). playerKnown d' x \<and> \<not> isJoin x"
    proof
      fix x assume "x \<in> set (?xs[tid := t'] @ started)"
      then consider (new) "x = t'" | (old) "x \<in> set ?xs" | (started) "x \<in> set started"
        using set_update_subset_insert[of ?xs tid t'] by auto
      then show "playerKnown d' x \<and> \<not> isJoin x"
      proof cases
        case new with f(1) f(3) show ?thesis by simp
      next
        case old
        with I4 playerKnown_continues[OF cont, of x] show ?thesis by simp
      next
        case started with f(2) show ?thesis by (simp add: list_all_iff)
      qed
    qed
    from J12 J3 J4 show ?thesis
      unfolding s' raceInv_def by (simp add: list_all_iff)
  qed
qed

lemma raceInv_run: "raceInv q p base s \<Longrightarrow> raceInv q p base (systemRun evs s)"
  unfolding systemRun_def
  by (induction evs arbitrary: s) (simp_all add: raceInv_step)

lemma notStarted_facts:
  "notStarted t \<Longrightarrow> \<not> wonQuestion q t \<and> \<not> credited p t \<and> playerKnown d t \<and> respondedKnown t"
  by (cases t rule: notStarted.cases) simp_all

lemma raceInv_initial:
  assumes "list_all (\<lambda>t. notStarted t \<and> \<not> isJoin t) ts"
  shows "raceInv q p (scoreOf p d) \<lparr>store = d, pool = ts\<rparr>"
proof -
  from assms have a: "\<forall>t \<in> set ts. notStarted t \<and> \<not> isJoin t" by (simp add: list_all_iff)
  have w: "length (filter (wonQuestion q) ts) = 0"
    using a notStarted_facts by (intro filter_none) blast
  have c: "length (filter (credited p) ts) = 0"
    using a notStarted_facts by (intro filter_none) blast
  have k: "\<forall>t \<in> set ts. playerKnown d t \<and> \<not> isJoin t"
    using a notStarted_facts by blast
  from w c k show ?thesis by (simp add: raceInv_def wins_def credits_def list_all_iff)
qed

lemma claimQuestion_once:
  "(fst (claimQuestion q pid name d) \<noteq> None \<longleftrightarrow>
      (case findById q (questions d) of None \<Rightarrow> False
       | Some qd \<Rightarrow> winnerId qd = None \<and> isActive qd)) \<and>
   (fst (claimQuestion q pid name d) = None \<longrightarrow> snd (claimQuestion q pid name d) = d) \<and>
   (fst (claimQuestion q pid name d) \<noteq> None \<longrightarrow>
      map_option winnerId (findById q (questions (snd (claimQuestion q pid name d)))) =
        Some (Some pid) \<and>
      fst (claimQuestion q pid' name' (snd (claimQuestion q pid name d))) = None)"
  by (auto simp: claimQuestion_def findById_updateById split: option.splits)

subsection \<open>Every call responds, with a known response\<close>

lemma answerStep_shape:
  assumes "answerStep b pc now d = (pc', d', started)"
  shows "(respondedKnown (AnswerT b pc) \<longrightarrow> respondedKnown (AnswerT b pc')) \<and>
         list_all respondedKnown started \<and>
         list_all (targets q) started \<and>
         stepsLeft (AnswerT b pc') \<le> stepsLeft (AnswerT b pc) - 1"
proof (cases pc)
  case ReadQuestion
  from answerStep_ReadQuestion[OF assms[unfolded ReadQuestion]]
  have e: "started = []"
    and "pc' = ReadPlayer \<or> (\<exists>r. pc' = Responded r \<and> \<not> isWin r \<and> knownResponse r)"
    by simp_all
  then consider (go) "pc' = ReadPlayer" | (stop) r where "pc' = Responded r" "knownResponse r"
    by blast
  then show ?thesis
  proof cases
    case go with e ReadQuestion show ?thesis by simp
  next
    case stop with e ReadQuestion show ?thesis by simp
  qed
next
  case ReadPlayer
  from answerStep_ReadPlayer[OF assms[unfolded ReadPlayer]]
  have e: "started = []"
    and "(\<exists>pid pl. playerOf b = Some pid \<and> findById pid (players d) = Some pl \<and>
             pc' = ClaimWin (username pl)) \<or>
         (\<exists>r. pc' = Responded r \<and> \<not> isWin r \<and> knownResponse r)"
    by simp_all
  then consider (go) name where "pc' = ClaimWin name"
    | (stop) r where "pc' = Responded r" "knownResponse r"
    by blast
  then show ?thesis
  proof cases
    case go with e ReadPlayer show ?thesis by simp
  next
    case stop with e ReadPlayer show ?thesis by simp
  qed
next
  case (ClaimWin name)
  from answerStep_ClaimWin[OF assms[unfolded ClaimWin]]
  have e: "started = []"
    and "(\<exists>pid qid qd. playerOf b = Some pid \<and> questionOf b = Some qid \<and>
               findById qid (questions d) = Some qd \<and> winnerId qd = None \<and> isActive qd \<and>
               findById qid (questions d') =
                 Some (qd\<lparr>winnerId := Some pid, winnerName := Some name\<rparr>) \<and>
               pc' = AwardScore name) \<or>
         (\<exists>r. d' = d \<and> pc' = Responded r \<and> \<not> isWin r \<and> knownResponse r)"
    by simp_all
  then consider (go) "pc' = AwardScore name"
    | (stop) r where "pc' = Responded r" "knownResponse r"
    by blast
  then show ?thesis
  proof cases
    case go with e ClaimWin show ?thesis by simp
  next
    case stop with e ClaimWin show ?thesis by simp
  qed
next
  case (AwardScore name)
  from answerStep_AwardScore[OF assms[unfolded AwardScore]]
  consider (win) qid where "pc' = Responded (Verdict True True (winMessage name))"
      "started = [TimerT qid (now + int ROTATION_DELAY_MS) Pending]"
    | (inv) r where "started = []" "pc' = Responded r" "knownResponse r"
    by blast
  then show ?thesis
  proof cases
    case win
    with AwardScore knownResponse_win[of "winMessage name"] show ?thesis by simp
  next
    case inv with AwardScore show ?thesis by simp
  qed
next
  case (Responded r)
  with assms have "pc' = Responded r" "started = []" by simp_all
  with Responded show ?thesis by simp
qed

lemma threadStep_shape:
  assumes "threadStep t now draws d = (t', d', started)"
  shows "(respondedKnown t \<longrightarrow> respondedKnown t') \<and>
         list_all respondedKnown started \<and>
         (targets q t \<longrightarrow> targets q t') \<and> list_all (targets q) started \<and>
         stepsLeft t' \<le> stepsLeft t - 1 \<and>
         (\<forall>b pc. t = AnswerT b pc \<longrightarrow> (\<exists>pc'. t' = AnswerT b pc'))"
proof (cases t)
  case (AnswerT b pc)
  obtain pc' where s: "answerStep b pc now d = (pc', d', started)" and t': "t' = AnswerT b pc'"
    using assms AnswerT by (auto split: prod.splits)
  from answerStep_shape[OF s, of q] AnswerT t' show ?thesis by simp
next
  case (TimerT qid due pc)
  with assms have "\<exists>pc'. t' = TimerT qid due pc'" "started = []" by (auto split: prod.splits)
  with TimerT show ?thesis by auto
next
  case (PollT pc)
  with assms have "\<exists>pc'. t' = PollT pc'" "started = []" by (auto split: prod.splits)
  with PollT show ?thesis by auto
next
  case (JoinT v u pc)
  with assms have "\<exists>pc'. t' = JoinT v u pc'" "started = []" by (auto split: prod.splits)
  with JoinT show ?thesis by auto
qed

lemma pool_step_invariant:
  assumes P: "\<And>t now draws d t' d' started. threadStep t now draws d = (t', d', started) \<Longrightarrow>
                 (P t \<longrightarrow> P t') \<and> list_all P started"
    and all: "list_all P (pool s)"
  shows "list_all P (pool (systemStep ev s))"
proof -
  obtain tid now draws where ev: "ev = (tid, now, draws)" by (cases ev)
  show ?thesis
  proof (cases "tid < length (pool s)")
    case False
    with all ev show ?thesis by (simp add: systemStep_idle)
  next
    case True
    obtain t' d' started where st: "threadStep (pool s ! tid) now draws (store s) = (t', d', started)"
      by (cases "threadStep (pool s ! tid) now draws (store s)")
    from True all have "P (pool s ! tid)" by (simp add: list_all_length)
    with P[OF st] have t': "P t'" and sp: "list_all P started" by simp_all
    have "\<forall>x \<in> set ((pool s)[tid := t'] @ started). P x"
    proof
      fix x assume "x \<in> set ((pool s)[tid := t'] @ started)"
      then consider "x = t'" | "x \<in> set (pool s)" | "x \<in> set started"
        using set_update_subset_insert[of "pool s" tid t'] by auto
      then show "P x" using t' sp all by cases (auto simp: list_all_iff)
    qed
    then show ?thesis
      using ev systemStep_thread[OF True st] by (simp add: list_all_iff)
  qed
qed

lemma checkQuestion_None: "checkQuestion qid n d = None \<Longrightarrow> \<exists>q. qid = WellFormed q"
  by (cases qid) (simp_all add: checkQuestion_def)

lemma answerStep_idsRead:
  assumes st: "answerStep req pc now d = (pc', d', started)" and ids: "idsRead (AnswerT req pc)"
  shows "idsRead (AnswerT req pc') \<and> list_all idsRead started"
proof (cases pc)
  case ReadQuestion
  show ?thesis
  proof (cases "validateAnswer req")
    case (Inl r)
    with st ReadQuestion show ?thesis by auto
  next
    case (Inr x)
    obtain pid qid n where x: "x = (pid, qid, n)" by (cases x)
    note v = validateAnswer_ids[OF Inr[unfolded x]]
    show ?thesis
    proof (cases "checkQuestion qid n d")
      case None
      from checkQuestion_None[OF None] v have "questionOf req \<noteq> None" by auto
      with st ReadQuestion Inr x None show ?thesis by auto
    next
      case (Some r)
      with st ReadQuestion Inr x show ?thesis by auto
    qed
  qed
next
  case ReadPlayer
  show ?thesis
  proof (cases "validateAnswer req")
    case (Inl r)
    with st ReadPlayer show ?thesis by auto
  next
    case (Inr x)
    obtain pid qid n where x: "x = (pid, qid, n)" by (cases x)
    note v = validateAnswer_ids[OF Inr[unfolded x]]
    show ?thesis
    proof (cases "findPlayer pid d")
      case (Inl r)
      with st ReadPlayer \<open>validateAnswer req = Inr x\<close> x show ?thesis by auto
    next
      case (Inr y)
      obtain p pl where y: "y = (p, pl)" by (cases y)
      from findPlayer_Inr[OF Inr[unfolded y]] v have "playerOf req \<noteq> None" by simp
      with st ids ReadPlayer \<open>validateAnswer req = Inr x\<close> x Inr y show ?thesis by auto
    qed
  qed
next
  case (ClaimWin name)
  with st ids show ?thesis by (auto split: option.splits prod.splits)
next
  case (AwardScore name)
  with st ids show ?thesis by (auto split: option.splits)
next
  case (Responded r)
  with st show ?thesis by auto
qed

lemma answerStep_started:
  "answerStep req pc now d = (pc', d', started) \<Longrightarrow> list_all idsRead started"
  by (cases pc) (auto split: sum.splits option.splits prod.splits)

lemma threadStep_idsRead:
  assumes "threadStep t now draws d = (t', d', started)"
  shows "(idsRead t \<longrightarrow> idsRead t') \<and> list_all idsRead started"
proof (cases t)
  case (AnswerT req pc)
  obtain pc' where s: "answerStep req pc now d = (pc', d', started)" and t': "t' = AnswerT req pc'"
    using assms AnswerT by (auto split: prod.splits)
  from answerStep_idsRead[OF s] answerStep_started[OF s] AnswerT t' show ?thesis by simp
next
  case (TimerT qid due pc)
  with assms show ?thesis by (auto split: prod.splits)
next
  case (PollT pc)
  with assms show ?thesis by (auto split: prod.splits)
next
  case (JoinT v u pc)
  with assms show ?thesis by (auto split: prod.splits)
qed

text \<open>
  In every run from threads that have not started, a call that stands before the
  conditional update or the score increment holds both ids: the 500 branch of these two
  steps is never taken.
\<close>

lemma idsRead_run:
  assumes "list_all notStarted ts"
  shows "list_all idsRead (pool (systemRun evs \<lparr>store = d, pool = ts\<rparr>))"
proof -
  have run: "list_all idsRead (pool s) \<Longrightarrow> list_all idsRead (pool (systemRun evs s))" for s
    unfolding systemRun_def
  proof (induction evs arbitrary: s)
    case Nil then show ?case by simp
  next
    case (Cons ev evs)
    have "list_all idsRead (pool (systemStep ev s))"
      using threadStep_idsRead Cons.prems by (intro pool_step_invariant) blast+
    from Cons.IH[OF this] show ?case by simp
  qed
  have "notStarted t \<Longrightarrow> idsRead t" for t
    by (cases t rule: notStarted.cases) simp_all
  with assms have "list_all idsRead (pool \<lparr>store = d, pool = ts\<rparr>)"
    by (auto simp: list_all_iff)
  from run[OF this] show ?thesis .
qed

lemma respondedKnown_run:
  "list_all respondedKnown (pool s) \<Longrightarrow> list_all respondedKnown (pool (systemRun evs s))"
  unfolding systemRun_def
proof (induction evs arbitrary: s)
  case Nil then show ?case by simp
next
  case (Cons ev evs)
  have "list_all respondedKnown (pool (systemStep ev s))"
    using threadStep_shape Cons.prems by (intro pool_step_invariant) blast+
  from Cons.IH[OF this] show ?case by simp
qed

lemma targets_run:
  "list_all (targets q) (pool s) \<Longrightarrow> list_all (targets q) (pool (systemRun evs s))"
  unfolding systemRun_def
proof (induction evs arbitrary: s)
  case Nil then show ?case by simp
next
  case (Cons ev evs)
  have "list_all (targets q) (pool (systemStep ev s))"
    using threadStep_shape[where q = q] Cons.prems by (intro pool_step_invariant) blast+
  from Cons.IH[OF this] show ?case by simp
qed

lemma progress_step:
  assumes i: "i < length (pool s)" and t: "pool s ! i = AnswerT b pc"
  shows "i < length (pool (systemStep ev s)) \<and>
         (\<exists>pc'. pool (systemStep ev s) ! i = AnswerT b pc') \<and>
         stepsLeft (pool (systemStep ev s) ! i) \<le>
           stepsLeft (pool s ! i) - (if fst ev = i then 1 else 0)"
proof -
  obtain tid now draws where ev: "ev = (tid, now, draws)" by (cases ev)
  show ?thesis
  proof (cases "tid < length (pool s)")
    case False
    with i t ev show ?thesis by (auto simp: systemStep_idle)
  next
    case True
    obtain t' d' started where st: "threadStep (pool s ! tid) now draws (store s) = (t', d', started)"
      by (cases "threadStep (pool s ! tid) now draws (store s)")
    have s': "pool (systemStep ev s) = (pool s)[tid := t'] @ started"
      using ev systemStep_thread[OF True st] by simp
    have nth: "pool (systemStep ev s) ! i = (if i = tid then t' else pool s ! i)"
      using i by (simp add: s' nth_append)
    show ?thesis
    proof (cases "i = tid")
      case False
      with nth i t ev s' show ?thesis by simp
    next
      case same: True
      from threadStep_shape[OF st, of 0] t same
      have "\<exists>pc'. t' = AnswerT b pc'" and "stepsLeft t' \<le> stepsLeft (pool s ! i) - 1"
        by simp_all
      with nth same i ev s' show ?thesis by simp
    qed
  qed
qed

lemma progress_run:
  "i < length (pool s) \<Longrightarrow> pool s ! i = AnswerT b pc \<Longrightarrow>
   i < length (pool (systemRun evs s)) \<and>
   (\<exists>pc'. pool (systemRun evs s) ! i = AnswerT b pc') \<and>
   stepsLeft (pool (systemRun evs s) ! i) \<le> stepsLeft (pool s ! i) - ownSteps i evs"
  unfolding systemRun_def
proof (induction evs arbitrary: s pc)
  case Nil then show ?case by (simp add: ownSteps_def)
next
  case (Cons ev evs)
  from progress_step[OF Cons.prems, of ev] obtain pc1 where
    1: "i < length (pool (systemStep ev s))" "pool (systemStep ev s) ! i = AnswerT b pc1"
    and 2: "stepsLeft (pool (systemStep ev s) ! i) \<le>
           stepsLeft (pool s ! i) - (if fst ev = i then 1 else 0)"
    by blast
  from Cons.IH[OF 1] 2 show ?case
    by (auto simp: ownSteps_def)
qed

lemma stepsLeft_zero: "stepsLeft (AnswerT b pc) = 0 \<Longrightarrow> \<exists>r. pc = Responded r"
  by (cases pc) simp_all

lemma filter_two_le:
  assumes "\<forall>x \<in> set xs. (A x \<longrightarrow> W x) \<and> (B x \<longrightarrow> W x) \<and> \<not> (A x \<and> B x)"
  shows "length (filter A xs) + length (filter B xs) \<le> length (filter W xs)"
  using assms by (induction xs) auto

lemma credited_won:
  "targets q t \<Longrightarrow> credited p t \<Longrightarrow> wonQuestion q t"
proof (cases t)
  case (AnswerT b pc)
  assume "targets q t" "credited p t"
  with AnswerT show ?thesis by (cases pc) simp_all
qed simp_all

lemma credited_one: "p \<noteq> p' \<Longrightarrow> credited p t \<Longrightarrow> \<not> credited p' t"
proof (cases t)
  case (AnswerT b pc)
  assume "p \<noteq> p'" "credited p t"
  with AnswerT show ?thesis by (cases pc) auto
qed simp_all

lemma batch_credits:
  assumes "list_all (targets q) (pool s)" "p \<noteq> p'"
  shows "credits p s + credits p' s \<le> wins q s"
  unfolding credits_def wins_def
proof (rule filter_two_le, rule ballI)
  fix x assume "x \<in> set (pool s)"
  with assms(1) have t: "targets q x" by (simp add: list_all_iff)
  from credited_won[OF t] credited_one[OF assms(2), of x]
  show "(credited p x \<longrightarrow> wonQuestion q x) \<and> (credited p' x \<longrightarrow> wonQuestion q x) \<and>
        \<not> (credited p x \<and> credited p' x)" by blast
qed

lemma filter_le:
  "(\<forall>x \<in> set xs. A x \<longrightarrow> W x) \<Longrightarrow> length (filter A xs) \<le> length (filter W xs)"
  by (induction xs) auto

lemma outcomeOf_Win: "outcomeOf r = Some Win \<Longrightarrow> isWin r"
  by (cases r) (auto split: if_splits)

lemma returnedWin_won: "targets q t \<and> returnedWin t \<Longrightarrow> wonQuestion q t"
proof (cases t)
  case (AnswerT b pc)
  assume "targets q t \<and> returnedWin t"
  with AnswerT show ?thesis by (cases pc) (simp_all add: outcomeOf_Win)
qed simp_all

lemma respondedKnown_other: "respondedKnown t \<Longrightarrow> returnedWin t \<or> respondedOther t"
proof (cases t)
  case (AnswerT b pc)
  assume k: "respondedKnown t"
  show ?thesis
  proof (cases pc)
    case (Responded r)
    with k AnswerT have kr: "outcomeOf r \<noteq> None \<or> otherResponse r"
      by (simp add: knownResponse_def)
    show ?thesis
    proof (cases "outcomeOf r")
      case None
      with kr AnswerT Responded show ?thesis by simp
    next
      case (Some out)
      with AnswerT Responded show ?thesis by (cases out) simp_all
    qed
  qed (simp_all add: AnswerT)
qed simp_all

lemma claimQuestion_writes:
  assumes "findById q (questions d) = Some qd" "fst (claimQuestion q pid name d) \<noteq> None"
  shows "claimQuestion q pid name d =
           (Some (qd\<lparr>winnerId := Some pid, winnerName := Some name\<rparr>),
            d\<lparr>questions :=
                updateById q (\<lambda>x. x\<lparr>winnerId := Some pid, winnerName := Some name\<rparr>)
                  (questions d)\<rparr>) \<and>
         findById q (questions (snd (claimQuestion q pid name d))) =
           Some (qd\<lparr>winnerId := Some pid, winnerName := Some name\<rparr>) \<and>
         (q' \<noteq> q \<longrightarrow>
            findById q' (questions (snd (claimQuestion q pid name d))) =
              findById q' (questions d)) \<and>
         players (snd (claimQuestion q pid name d)) = players d"
  using assms by (auto simp: claimQuestion_def findById_updateById split: if_splits)

lemma responds_after_four:
  assumes "i < length ts" "ts ! i = submit req" "4 \<le> ownSteps i evs"
  shows "\<exists>r. pool (systemRun evs \<lparr>store = d, pool = ts\<rparr>) ! i = AnswerT req (Responded r)"
proof -
  let ?ini = "\<lparr>store = d, pool = ts\<rparr>"
  let ?s = "systemRun evs ?ini"
  from assms have i: "i < length (pool ?ini)" and t: "pool ?ini ! i = AnswerT req ReadQuestion"
    by (simp_all add: submit_def)
  from progress_run[OF i t, of evs] obtain pc' where
    th: "pool ?s ! i = AnswerT req pc'"
    and st: "stepsLeft (pool ?s ! i) \<le> stepsLeft (pool ?ini ! i) - ownSteps i evs"
    by blast
  from st assms(3) t have "stepsLeft (AnswerT req pc') = 0" by (simp add: th)
  from stepsLeft_zero[OF this] obtain r where "pc' = Responded r" ..
  with th show ?thesis by simp
qed

text \<open>
  C1 (amended). For every pool of answer calls (and polls) that have not started, every
  store and every schedule: at most one call has won a given question, and then the
  question is stored with a winner; at most one call to a question has returned the win;
  every call that has responded has returned the win, one of the five other outcomes, or
  one of the four other responses (the two validation errors, player not found, server
  error); a call that the schedule has given four steps has responded; the score of every
  player is its score at the start plus the number of wins returned to that player; when
  all calls of the pool go to the same question, at most one player is credited, once.
  The conditional update succeeds exactly when the question is stored, active and without
  winner; then it writes the winner's id and name into that question and nothing else,
  and a second one on the same question fails; when it fails it writes nothing.
\<close>

theorem at_most_one_winner:
  assumes "list_all (\<lambda>t. notStarted t \<and> \<not> isJoin t) ts"
  shows "wins q (systemRun evs \<lparr>store = d, pool = ts\<rparr>) \<le> 1 \<and>
         (0 < wins q (systemRun evs \<lparr>store = d, pool = ts\<rparr>) \<longrightarrow>
            (case findById q (questions (store (systemRun evs \<lparr>store = d, pool = ts\<rparr>))) of
               None \<Rightarrow> False
             | Some qd \<Rightarrow> winnerId qd \<noteq> None)) \<and>
         length (filter (\<lambda>t. targets q t \<and> returnedWin t)
                   (pool (systemRun evs \<lparr>store = d, pool = ts\<rparr>))) \<le> 1 \<and>
         list_all (\<lambda>t. returnedWin t \<or> respondedOther t)
           (pool (systemRun evs \<lparr>store = d, pool = ts\<rparr>)) \<and>
         (i < length ts \<and> ts ! i = submit req \<and> 4 \<le> ownSteps i evs \<longrightarrow>
            (\<exists>r. pool (systemRun evs \<lparr>store = d, pool = ts\<rparr>) ! i = AnswerT req (Responded r))) \<and>
         scoreOf p (store (systemRun evs \<lparr>store = d, pool = ts\<rparr>)) =
           scoreOf p d + int (credits p (systemRun evs \<lparr>store = d, pool = ts\<rparr>)) \<and>
         (list_all (targets q) ts \<and> p \<noteq> p' \<longrightarrow>
            credits p (systemRun evs \<lparr>store = d, pool = ts\<rparr>) +
            credits p' (systemRun evs \<lparr>store = d, pool = ts\<rparr>) \<le> 1) \<and>
         (fst (claimQuestion q pid name d) \<noteq> None \<longleftrightarrow>
            (case findById q (questions d) of None \<Rightarrow> False
             | Some qd \<Rightarrow> winnerId qd = None \<and> isActive qd)) \<and>
         (fst (claimQuestion q pid name d) = None \<longrightarrow> snd (claimQuestion q pid name d) = d) \<and>
         (findById q (questions d) = Some qd \<and> fst (claimQuestion q pid name d) \<noteq> None \<longrightarrow>
            claimQuestion q pid name d =
              (Some (qd\<lparr>winnerId := Some pid, winnerName := Some name\<rparr>),
               d\<lparr>questions :=
                   updateById q (\<lambda>x. x\<lparr>winnerId := Some pid, winnerName := Some name\<rparr>)
                     (questions d)\<rparr>) \<and>
            findById q (questions (snd (claimQuestion q pid name d))) =
              Some (qd\<lparr>winnerId := Some pid, winnerName := Some name\<rparr>) \<and>
            (q' \<noteq> q \<longrightarrow>
               findById q' (questions (snd (claimQuestion q pid name d))) =
                 findById q' (questions d)) \<and>
            players (snd (claimQuestion q pid name d)) = players d) \<and>
         (fst (claimQuestion q pid name d) \<noteq> None \<longrightarrow>
            fst (claimQuestion q pid' name' (snd (claimQuestion q pid name d))) = None)"
proof -
  let ?ini = "\<lparr>store = d, pool = ts\<rparr>"
  let ?s = "systemRun evs ?ini"
  from raceInv_run[OF raceInv_initial[OF assms, of q p d], of evs]
  have w: "wins q ?s \<le> 1"
    and st: "0 < wins q ?s \<longrightarrow>
       (case findById q (questions (store ?s)) of None \<Rightarrow> False | Some qd \<Rightarrow> winnerId qd \<noteq> None)"
    and sc: "scoreOf p (store ?s) = scoreOf p d + int (credits p ?s)"
    by (simp_all add: raceInv_def)
  have "length (filter (\<lambda>t. targets q t \<and> returnedWin t) (pool ?s)) \<le>
        length (filter (wonQuestion q) (pool ?s))"
    using returnedWin_won by (intro filter_le) blast
  with w have rw: "length (filter (\<lambda>t. targets q t \<and> returnedWin t) (pool ?s)) \<le> 1"
    by (simp add: wins_def)
  have k0: "list_all respondedKnown (pool ?ini)"
    using assms notStarted_facts by (auto simp: list_all_iff)
  have "list_all respondedKnown (pool ?s)" by (rule respondedKnown_run[OF k0])
  then have ot: "list_all (\<lambda>t. returnedWin t \<or> respondedOther t) (pool ?s)"
    using respondedKnown_other by (auto simp: list_all_iff)
  have pr: "i < length ts \<and> ts ! i = submit req \<and> 4 \<le> ownSteps i evs \<longrightarrow>
            (\<exists>r. pool ?s ! i = AnswerT req (Responded r))"
    using responds_after_four[of i ts req evs d] by blast
  have b: "list_all (targets q) ts \<and> p \<noteq> p' \<longrightarrow> credits p ?s + credits p' ?s \<le> 1"
  proof
    assume a: "list_all (targets q) ts \<and> p \<noteq> p'"
    then have "list_all (targets q) (pool ?s)"
      using targets_run[of q ?ini evs] by simp
    from batch_credits[OF this, of p p'] a w show "credits p ?s + credits p' ?s \<le> 1" by simp
  qed
  note once = claimQuestion_once[of q pid name d pid' name']
  have c1: "fst (claimQuestion q pid name d) \<noteq> None \<longleftrightarrow>
            (case findById q (questions d) of None \<Rightarrow> False
             | Some qd \<Rightarrow> winnerId qd = None \<and> isActive qd)"
    using once by blast
  have c2: "fst (claimQuestion q pid name d) = None \<longrightarrow> snd (claimQuestion q pid name d) = d"
    using once by blast
  have c3: "fst (claimQuestion q pid name d) \<noteq> None \<longrightarrow>
            fst (claimQuestion q pid' name' (snd (claimQuestion q pid name d))) = None"
    using once by blast
  have c4: "findById q (questions d) = Some qd \<and> fst (claimQuestion q pid name d) \<noteq> None \<longrightarrow>
            claimQuestion q pid name d =
              (Some (qd\<lparr>winnerId := Some pid, winnerName := Some name\<rparr>),
               d\<lparr>questions :=
                   updateById q (\<lambda>x. x\<lparr>winnerId := Some pid, winnerName := Some name\<rparr>)
                     (questions d)\<rparr>) \<and>
            findById q (questions (snd (claimQuestion q pid name d))) =
              Some (qd\<lparr>winnerId := Some pid, winnerName := Some name\<rparr>) \<and>
            (q' \<noteq> q \<longrightarrow>
               findById q' (questions (snd (claimQuestion q pid name d))) =
                 findById q' (questions d)) \<and>
            players (snd (claimQuestion q pid name d)) = players d"
    using claimQuestion_writes[of q d qd pid name q'] by blast
  show ?thesis
    apply (intro conjI)
    apply (rule w)
    apply (rule st)
    apply (rule rw)
    apply (rule ot)
    apply (rule pr)
    apply (rule sc)
    apply (rule b)
    apply (rule c1)
    apply (rule c2)
    apply (rule c4)
    apply (rule c3)
    done
qed

lemma race_result:
  "systemRun raceSchedule raceStart =
   \<lparr>store =
      \<lparr>players = [(1, \<lparr>username = ascii ''al'', score = 6, highScore = 7\<rparr>)],
       questions =
         [(1, \<lparr>qtext = ascii ''7 + 8'', answer = 15, isActive = False, winnerId = Some 1,
                winnerName = Some (ascii ''al''), createdAt = 0\<rparr>),
          (2, \<lparr>qtext = ascii ''10 + 10'', answer = 20, isActive = True, winnerId = None,
                winnerName = None, createdAt = 5001\<rparr>)]\<rparr>,
    pool =
      [AnswerT (Some rightAnswer) (Responded (Verdict True True (winMessage (ascii ''al'')))),
       AnswerT (Some rightAnswer)
         (Responded (Verdict True False (ascii ''Correct, but someone was faster!''))),
       TimerT 1 3016 Fired]\<rparr>"
  by (simp add: systemRun_def raceSchedule_def raceStart_def systemStep_def submit_def
      rightAnswer_def sampleStore_def sampleDraws_def validateAnswer_def
      checkQuestion_def findPlayer_def questionOf_def playerOf_def
      findById_def claimQuestion_def updateById_def incScore_def ROTATION_DELAY_MS_def
      deactivate_def generateQuestion_zero createQuestion_def insertDoc_def freshId_def
      Let_def winMessage_def)

text \<open>
  Two calls with the right answer, interleaved step by step: the first wins, the second
  is told that someone was faster, and player 1 goes from 5 to 6.
\<close>

theorem at_most_one_winner_witness:
  "list_all (\<lambda>t. notStarted t \<and> \<not> isJoin t) (pool raceStart) \<and>
   list_all (targets 1) (pool raceStart) \<and>
   pool raceStart ! 0 = submit (Some rightAnswer) \<and> 4 \<le> ownSteps 0 raceSchedule \<and>
   pool (systemRun raceSchedule raceStart) =
     [AnswerT (Some rightAnswer) (Responded (Verdict True True (winMessage (ascii ''al'')))),
      AnswerT (Some rightAnswer)
        (Responded (Verdict True False (ascii ''Correct, but someone was faster!''))),
      TimerT 1 3016 Fired] \<and>
   wins 1 (systemRun raceSchedule raceStart) = 1 \<and>
   length (filter (\<lambda>t. targets 1 t \<and> returnedWin t) (pool (systemRun raceSchedule raceStart)))
     = 1 \<and>
   credits 1 (systemRun raceSchedule raceStart) = 1 \<and>
   scoreOf 1 (store raceStart) = 5 \<and>
   scoreOf 1 (store (systemRun raceSchedule raceStart)) = 6 \<and>
   findById 1 (questions sampleStore) =
     Some \<lparr>qtext = ascii ''7 + 8'', answer = 15, isActive = True, winnerId = None,
           winnerName = None, createdAt = 0\<rparr> \<and>
   fst (claimQuestion 1 1 (ascii ''al'') sampleStore) \<noteq> None \<and>
   findById 1 (questions (snd (claimQuestion 1 1 (ascii ''al'') sampleStore))) =
     Some \<lparr>qtext = ascii ''7 + 8'', answer = 15, isActive = True, winnerId = Some 1,
           winnerName = Some (ascii ''al''), createdAt = 0\<rparr> \<and>
   fst (claimQuestion 1 2 (ascii ''bo'')
          (snd (claimQuestion 1 1 (ascii ''al'') sampleStore))) = None"
proof -
  have init: "list_all (\<lambda>t. notStarted t \<and> \<not> isJoin t)
      [submit (Some rightAnswer), submit (Some rightAnswer)]"
    by (simp add: submit_def)
  have tg: "list_all (targets 1) (pool raceStart)"
    by (simp add: raceStart_def submit_def rightAnswer_def questionOf_def)
  have rs: "raceStart =
      \<lparr>store = sampleStore, pool = [submit (Some rightAnswer), submit (Some rightAnswer)]\<rparr>"
    by (simp add: raceStart_def)
  have own: "4 \<le> ownSteps 0 raceSchedule"
    by (simp add: ownSteps_def raceSchedule_def)
  have w: "wins 1 (systemRun raceSchedule raceStart) = 1"
    by (simp add: race_result wins_def rightAnswer_def questionOf_def)
  have rw: "length (filter (\<lambda>t. targets 1 t \<and> returnedWin t)
      (pool (systemRun raceSchedule raceStart))) = 1"
    by (simp add: race_result rightAnswer_def questionOf_def)
  have c: "credits 1 (systemRun raceSchedule raceStart) = 1"
    by (simp add: race_result credits_def rightAnswer_def playerOf_def)
  have s0: "scoreOf 1 sampleStore = 5" by (simp add: scoreOf_def sampleStore_def findById_def)
  have fq: "findById 1 (questions sampleStore) =
     Some \<lparr>qtext = ascii ''7 + 8'', answer = 15, isActive = True, winnerId = None,
           winnerName = None, createdAt = 0\<rparr>"
    by (simp add: sampleStore_def findById_def)
  have cl: "fst (claimQuestion 1 1 (ascii ''al'') sampleStore) \<noteq> None"
    by (simp add: claimQuestion_def sampleStore_def findById_def)
  have pl: "pool (systemRun raceSchedule raceStart) =
     [AnswerT (Some rightAnswer) (Responded (Verdict True True (winMessage (ascii ''al'')))),
      AnswerT (Some rightAnswer)
        (Responded (Verdict True False (ascii ''Correct, but someone was faster!''))),
      TimerT 1 3016 Fired]"
    by (simp add: race_result)
  have cl2: "fst (claimQuestion 1 2 (ascii ''bo'')
      (snd (claimQuestion 1 1 (ascii ''al'') sampleStore))) = None"
    by (simp add: claimQuestion_def sampleStore_def findById_def updateById_def)
  note inst = at_most_one_winner[OF init, where q = 1 and evs = raceSchedule
      and d = sampleStore and p = 1 and p' = 2 and pid = 1 and name = "ascii ''al''"
      and pid' = 2 and name' = "ascii ''bo''" and i = 0 and req = "Some rightAnswer"
      and q' = 2
      and qd = "\<lparr>qtext = ascii ''7 + 8'', answer = 15, isActive = True, winnerId = None,
           winnerName = None, createdAt = 0\<rparr>"]
  from inst have "scoreOf 1 (store (systemRun raceSchedule raceStart)) =
      scoreOf 1 sampleStore + int (credits 1 (systemRun raceSchedule raceStart))"
    unfolding rs by blast
  with c s0 have s1: "scoreOf 1 (store (systemRun raceSchedule raceStart)) = 6" by simp
  from inst fq cl have wr: "findById 1 (questions (snd (claimQuestion 1 1 (ascii ''al'') sampleStore))) =
     Some (\<lparr>qtext = ascii ''7 + 8'', answer = 15, isActive = True, winnerId = None,
           winnerName = None, createdAt = 0\<rparr>\<lparr>winnerId := Some 1, winnerName := Some (ascii ''al'')\<rparr>)"
    by blast
  then have wr': "findById 1 (questions (snd (claimQuestion 1 1 (ascii ''al'') sampleStore))) =
     Some \<lparr>qtext = ascii ''7 + 8'', answer = 15, isActive = True, winnerId = Some 1,
           winnerName = Some (ascii ''al''), createdAt = 0\<rparr>"
    by simp
  have s0': "scoreOf 1 (store raceStart) = 5" using s0 by (simp add: rs)
  have init': "list_all (\<lambda>t. notStarted t \<and> \<not> isJoin t) (pool raceStart)"
    using init by (simp add: rs)
  have p0: "pool raceStart ! 0 = submit (Some rightAnswer)" by (simp add: rs)
  show ?thesis
    apply (intro conjI)
    apply (rule init')
    apply (rule tg)
    apply (rule p0)
    apply (rule own)
    apply (rule pl)
    apply (rule w)
    apply (rule rw)
    apply (rule c)
    apply (rule s0')
    apply (rule s1)
    apply (rule fq)
    apply (rule cl)
    apply (rule wr')
    apply (rule cl2)
    done
qed

lemma stranger_result:
  "pool (systemRun raceSchedule strangerStart) =
     [AnswerT (Some strangerAnswer) (Responded (Failure 404 (ascii ''Player not found''))),
      AnswerT (Some rightAnswer) (Responded (Verdict True True (winMessage (ascii ''al'')))),
      TimerT 1 3017 Fired]"
  by (simp add: systemRun_def raceSchedule_def strangerStart_def systemStep_def submit_def
      rightAnswer_def strangerAnswer_def sampleStore_def sampleDraws_def
      validateAnswer_def checkQuestion_def findPlayer_def questionOf_def playerOf_def
      findById_def claimQuestion_def updateById_def incScore_def
      ROTATION_DELAY_MS_def deactivate_def generateQuestion_zero createQuestion_def
      insertDoc_def freshId_def Let_def winMessage_def)

text \<open>
  C1 as stated fails: of two calls with the right value 15 for question 1, the one from a
  player that is not stored receives 404, player not found, which is none of the six
  outcomes.
\<close>

theorem at_most_one_winner_counterexample:
  "list_all (targets 1) (pool strangerStart) \<and>
   bodyAnswer strangerAnswer = Numeric 15 \<and> bodyAnswer rightAnswer = Numeric 15 \<and>
   map_option answer (findById 1 (questions (store strangerStart))) = Some 15 \<and>
   pool (systemRun raceSchedule strangerStart) ! 0 =
     AnswerT (Some strangerAnswer) (Responded (Failure 404 (ascii ''Player not found''))) \<and>
   outcomeOf (Failure 404 (ascii ''Player not found'')) = None"
  by (simp add: stranger_result ascii_def)
     (simp add: strangerStart_def submit_def strangerAnswer_def rightAnswer_def
        questionOf_def sampleStore_def findById_def)

text \<open>
  C4 (amended). A call run without interference returns the response of the first check
  that fails, in the order: the body cannot be read (500), a required field is missing
  (400), the answer is not a number (400), the question id is not an ObjectId (500),
  question not found, inactive, already won, wrong answer, the player id is not an
  ObjectId (500), player not found (404), and the win otherwise. In every run from calls
  that have not started, every response is one of the six outcomes or one of these four
  other responses (the two 400s, 404 player not found, 500 server error), and a call that
  the schedule has given four steps has responded.
\<close>

theorem answer_outcomes:
  assumes "list_all notStarted ts"
  shows "fst (answer_POST b d) = expectedResponse b d \<and>
         knownResponse (expectedResponse b d) \<and>
         list_all respondedKnown (pool (systemRun evs \<lparr>store = d, pool = ts\<rparr>)) \<and>
         (i < length ts \<and> ts ! i = submit b \<and> 4 \<le> ownSteps i evs \<longrightarrow>
            (\<exists>r. pool (systemRun evs \<lparr>store = d, pool = ts\<rparr>) ! i = AnswerT b (Responded r) \<and>
                 knownResponse r))"
proof -
  let ?ini = "\<lparr>store = d, pool = ts\<rparr>"
  let ?s = "systemRun evs ?ini"
  have k0: "list_all respondedKnown (pool ?ini)"
    using assms notStarted_facts by (auto simp: list_all_iff)
  have known: "list_all respondedKnown (pool ?s)" by (rule respondedKnown_run[OF k0])
  have prog: "i < length ts \<and> ts ! i = submit b \<and> 4 \<le> ownSteps i evs \<longrightarrow>
            (\<exists>r. pool ?s ! i = AnswerT b (Responded r) \<and> knownResponse r)"
  proof
    assume a: "i < length ts \<and> ts ! i = submit b \<and> 4 \<le> ownSteps i evs"
    then have i: "i < length (pool ?ini)" and t: "pool ?ini ! i = AnswerT b ReadQuestion"
      by (simp_all add: submit_def)
    from progress_run[OF i t, of evs] have len: "i < length (pool ?s)" by blast
    from a responds_after_four[of i ts b evs d] obtain r
      where th: "pool ?s ! i = AnswerT b (Responded r)" by blast
    from known len have "respondedKnown (pool ?s ! i)" by (simp add: list_all_length)
    with th show "\<exists>r. pool ?s ! i = AnswerT b (Responded r) \<and> knownResponse r" by simp
  qed
  from answer_POST_expected[of b d] expectedResponse_known[of b d] known prog
  show ?thesis by (simp add: knownResponse_def)
qed

lemma answer_POST_stranger:
  "answer_POST (Some strangerAnswer) sampleStore =
     (Failure 404 (ascii ''Player not found''), sampleStore, [])"
  by (simp add: answer_POST_def validateAnswer_def checkQuestion_def findPlayer_def
      strangerAnswer_def sampleStore_def findById_def)

text \<open>
  A body that is not JSON, a question id and a player id that are not ObjectIds: the
  \<open>catch\<close> block answers 500, alone and in a run, and the store stays as it was.
\<close>

lemma answer_POST_faulty:
  "answer_POST None sampleStore = (Failure 500 (ascii ''Server error''), sampleStore, [])"
  "answer_POST (Some badQuestionAnswer) sampleStore =
     (Failure 500 (ascii ''Server error''), sampleStore, [])"
  "answer_POST (Some badPlayerAnswer) sampleStore =
     (Failure 500 (ascii ''Server error''), sampleStore, [])"
  by (simp_all add: answer_POST_def validateAnswer_def checkQuestion_def findPlayer_def
      badQuestionAnswer_def badPlayerAnswer_def serverError_def sampleStore_def findById_def)

lemma faulty_result:
  "systemRun faultySchedule faultyStart =
     \<lparr>store = sampleStore,
      pool =
        [AnswerT None (Responded (Failure 500 (ascii ''Server error''))),
         AnswerT (Some badQuestionAnswer) (Responded (Failure 500 (ascii ''Server error''))),
         AnswerT (Some badPlayerAnswer) (Responded (Failure 500 (ascii ''Server error'')))]\<rparr>"
  by (simp add: systemRun_def faultySchedule_def faultyStart_def systemStep_def submit_def
      badQuestionAnswer_def badPlayerAnswer_def validateAnswer_def checkQuestion_def
      findPlayer_def serverError_def sampleStore_def findById_def)

text \<open>
  A right answer from a player that is not stored: the call responds with 404, player
  not found, alone and in a race.
\<close>

theorem answer_outcomes_witness:
  "list_all notStarted (pool strangerStart) \<and>
   0 < length (pool strangerStart) \<and> pool strangerStart ! 0 = submit (Some strangerAnswer) \<and>
   4 \<le> ownSteps 0 raceSchedule \<and>
   pool (systemRun raceSchedule strangerStart) ! 0 =
     AnswerT (Some strangerAnswer) (Responded (Failure 404 (ascii ''Player not found''))) \<and>
   knownResponse (Failure 404 (ascii ''Player not found'')) \<and>
   fst (answer_POST (Some strangerAnswer) sampleStore) =
     Failure 404 (ascii ''Player not found'') \<and>
   expectedResponse (Some strangerAnswer) sampleStore =
     Failure 404 (ascii ''Player not found'')"
proof -
  have rs: "strangerStart =
      \<lparr>store = sampleStore, pool = [submit (Some strangerAnswer), submit (Some rightAnswer)]\<rparr>"
    by (simp add: strangerStart_def)
  have init: "list_all notStarted [submit (Some strangerAnswer), submit (Some rightAnswer)]"
    by (simp add: submit_def)
  have own: "4 \<le> ownSteps 0 raceSchedule"
    by (simp add: ownSteps_def raceSchedule_def)
  have p0: "pool (systemRun raceSchedule strangerStart) ! 0 =
     AnswerT (Some strangerAnswer) (Responded (Failure 404 (ascii ''Player not found'')))"
    by (simp add: stranger_result)
  have seq: "fst (answer_POST (Some strangerAnswer) sampleStore) =
      Failure 404 (ascii ''Player not found'')"
    by (simp add: answer_POST_stranger)
  note inst = answer_outcomes[OF init, where b = "Some strangerAnswer" and d = sampleStore
      and evs = raceSchedule and i = 0]
  from inst seq have ex: "expectedResponse (Some strangerAnswer) sampleStore =
      Failure 404 (ascii ''Player not found'')"
    by simp
  from inst ex have kn: "knownResponse (Failure 404 (ascii ''Player not found''))" by simp
  have i0: "list_all notStarted (pool strangerStart)" using init by (simp add: rs)
  have l0: "0 < length (pool strangerStart)"
    "pool strangerStart ! 0 = submit (Some strangerAnswer)"
    by (simp_all add: rs)
  from i0 l0 own p0 kn seq ex show ?thesis by blast
qed

text \<open>
  C4 as stated fails: the response to a right answer from an unknown player is none of
  the six outcomes.
\<close>

theorem answer_outcomes_counterexample:
  "fst (answer_POST (Some strangerAnswer) sampleStore) =
     Failure 404 (ascii ''Player not found'') \<and>
   outcomeOf (fst (answer_POST (Some strangerAnswer) sampleStore)) = None"
  by (simp add: answer_POST_stranger ascii_def)

lemma mixed_result:
  "store (systemRun mixedSchedule mixedStart) =
     \<lparr>players =
        [(1, \<lparr>username = ascii ''al'', score = 1, highScore = 7\<rparr>),
         (2, \<lparr>username = ascii ''bo'', score = 0, highScore = 0\<rparr>)],
      questions =
        [(1, \<lparr>qtext = ascii ''7 + 8'', answer = 15, isActive = False, winnerId = Some 1,
               winnerName = Some (ascii ''al''), createdAt = 0\<rparr>),
         (2, \<lparr>qtext = ascii ''10 + 10'', answer = 20, isActive = True, winnerId = None,
               winnerName = None, createdAt = 5001\<rparr>)]\<rparr>"
  by (simp add: systemRun_def mixedSchedule_def mixedStart_def systemStep_def submit_def
      rightAnswer_def sampleStore_def sampleDraws_def validateAnswer_def
      checkQuestion_def findPlayer_def questionOf_def playerOf_def
      findById_def claimQuestion_def updateById_def incScore_def
      ROTATION_DELAY_MS_def deactivate_def generateQuestion_zero createQuestion_def
      insertDoc_def freshId_def Let_def winMessage_def trim_def isSpace_def whiteSpace_def
      ascii_def findByUsername_def
      createPlayer_def resetScore_def findOneActive_def snapshot_def topPlayers_def
      QUESTION_TIMEOUT_MS_def)

text \<open>
  A run with a resetting join, a winning answer, a join of a new player, a poll and the
  rotation timer: player 1 goes from score 5 to score 1 and keeps the high score 7.
\<close>

theorem highScore_never_written_witness:
  "findById 1 (players sampleStore) =
     Some \<lparr>username = ascii ''al'', score = 5, highScore = 7\<rparr> \<and>
   findById 1 (players (store (systemRun mixedSchedule mixedStart))) =
     Some \<lparr>username = ascii ''al'', score = 1, highScore = 7\<rparr> \<and>
   map_option highScore (findById 1 (players (store (systemRun mixedSchedule mixedStart)))) =
     Some 7 \<and>
   findById 1 (players (incScore 1 sampleStore)) =
     Some \<lparr>username = ascii ''al'', score = 6, highScore = 7\<rparr>"
proof -
  have p: "findById 1 (players sampleStore) =
      Some \<lparr>username = ascii ''al'', score = 5, highScore = 7\<rparr>"
    by (simp add: sampleStore_def findById_def)
  have ms: "mixedStart = \<lparr>store = sampleStore, pool = pool mixedStart\<rparr>"
    by (simp add: mixedStart_def)
  note inst = highScore_never_written[OF p, where pid = 1 and b = "Some rightAnswer"
      and body = "Some (Name (ascii '' al ''))" and now = 60001 and draws = sampleDraws
      and evs = mixedSchedule and ts = "pool mixedStart"]
  from inst have hs: "map_option highScore
      (findById 1 (players (store (systemRun mixedSchedule mixedStart)))) = Some 7"
    unfolding ms[symmetric] by simp
  from inst have inc: "findById 1 (players (incScore 1 sampleStore)) =
     Some \<lparr>username = ascii ''al'', score = 6, highScore = 7\<rparr>" by simp
  have run: "findById 1 (players (store (systemRun mixedSchedule mixedStart))) =
     Some \<lparr>username = ascii ''al'', score = 1, highScore = 7\<rparr>"
    by (simp add: mixed_result findById_def)
  from p run hs inc show ?thesis by blast
qed

end
